theory Spec2Isabelle
  imports Main
begin

section \<open>Characters and the string methods of the source\<close>

text \<open>
  Names are Python \<open>str\<close> values; they are modelled as Isabelle strings and read as
  ASCII text (repository and identifier names). The character tests below are the ASCII
  ranges the source's regular expressions spell out. Code points above 127 are outside the
  model: \<open>lower_char\<close>, \<open>upper_char\<close> and \<open>is_word_char\<close> are the ASCII
  parts of \<open>str.lower\<close>, \<open>str.capitalize\<close> and \<open>\w\<close>, and leave every other
  character alone. A property whose truth depends on them is stated for ASCII names.
\<close>

definition in_range :: "char \<Rightarrow> char \<Rightarrow> char \<Rightarrow> bool" where
  "in_range lo hi c = ((of_char lo :: nat) \<le> of_char c \<and> (of_char c :: nat) \<le> of_char hi)"

definition is_upper :: "char \<Rightarrow> bool" where
  "is_upper c = in_range CHR ''A'' CHR ''Z'' c"

definition is_lower :: "char \<Rightarrow> bool" where
  "is_lower c = in_range CHR ''a'' CHR ''z'' c"

definition is_digit :: "char \<Rightarrow> bool" where
  "is_digit c = in_range CHR ''0'' CHR ''9'' c"

definition is_letter :: "char \<Rightarrow> bool" where
  "is_letter c = (is_lower c \<or> is_upper c)"

definition is_sep :: "char \<Rightarrow> bool" where
  "is_sep c = (c = CHR ''-'' \<or> c = CHR ''_'')"

text \<open>\<open>\w\<close> of the \<open>re\<close> module on ASCII text: a letter, a digit or the underscore.\<close>

definition is_word_char :: "char \<Rightarrow> bool" where
  "is_word_char c = (is_letter c \<or> is_digit c \<or> c = CHR ''_'')"

definition lower_char :: "char \<Rightarrow> char" where
  "lower_char c = (if is_upper c then char_of (of_char c + (32::nat)) else c)"

definition upper_char :: "char \<Rightarrow> char" where
  "upper_char c = (if is_lower c then char_of (of_char c - (32::nat)) else c)"

text \<open>\<open>str.lower()\<close>.\<close>

definition lower :: "string \<Rightarrow> string" where
  "lower s = map lower_char s"

text \<open>\<open>str.capitalize()\<close>: the first character upper-cased, every other one lower-cased.\<close>

fun capitalize :: "string \<Rightarrow> string" where
  "capitalize [] = []"
| "capitalize (c # cs) = upper_char c # lower cs"

text \<open>\<open>str.strip('-_')\<close>: leading and trailing separators removed.\<close>

definition strip_seps :: "string \<Rightarrow> string" where
  "strip_seps s = rev (dropWhile is_sep (rev (dropWhile is_sep s)))"

text \<open>\<open>sep.join(words)\<close>.\<close>

fun join :: "string \<Rightarrow> string list \<Rightarrow> string" where
  "join sep [] = []"
| "join sep [w] = w"
| "join sep (w # ws) = w @ sep @ join sep ws"

section \<open>The fragment of the \<open>re\<close> module the source uses\<close>

text \<open>
  A pattern is the syntax tree of its text. \<open>Eps\<close> is the empty pattern \<open>''\<close>,
  \<open>Cls\<close> a character class given by its ranges, \<open>Bol\<close> is \<open>^\<close>, \<open>Eol\<close> is \<open>$\<close>,
  \<open>WordB\<close> is \<open>\b\<close> and \<open>Look r\<close> is the lookahead \<open>(?=r)\<close>.
\<close>

datatype regex =
    Eps
  | Cls "(char \<times> char) list"
  | Seq regex regex
  | Alt regex regex
  | Opt regex
  | Star regex
  | Plus regex
  | Bol
  | Eol
  | WordB
  | Look regex

text \<open>
  A position in the subject string: the character before it (\<open>None\<close> at the start of the
  string) and the text from it on.
\<close>

type_synonym pos = "char option \<times> string"

definition in_class :: "(char \<times> char) list \<Rightarrow> char \<Rightarrow> bool" where
  "in_class rs c = list_ex (\<lambda>(lo, hi). in_range lo hi c) rs"

definition word_before :: "pos \<Rightarrow> bool" where
  "word_before p = (case fst p of None \<Rightarrow> False | Some c \<Rightarrow> is_word_char c)"

definition word_after :: "pos \<Rightarrow> bool" where
  "word_after p = (case snd p of [] \<Rightarrow> False | c # _ \<Rightarrow> is_word_char c)"

text \<open>
  Greedy repetition: the positions reachable by repeating \<open>f\<close>, longest first, the
  position itself last. Each round must consume text, so the length of the remaining text
  bounds the number of rounds.
\<close>

primrec star_iter :: "(pos \<Rightarrow> pos list) \<Rightarrow> nat \<Rightarrow> pos \<Rightarrow> pos list" where
  "star_iter f 0 p = [p]"
| "star_iter f (Suc n) p =
     concat (map (star_iter f n) (filter (\<lambda>q. length (snd q) < length (snd p)) (f p))) @ [p]"

text \<open>
  The backtracking matcher: every position at which a match of the pattern begun at
  \<open>p\<close> can end, in the order in which the \<open>re\<close> engine tries them (alternatives left
  to right, repetitions greedy).
\<close>

primrec ends :: "regex \<Rightarrow> pos \<Rightarrow> pos list" where
  "ends Eps p = [p]"
| "ends (Cls rs) p =
     (case snd p of [] \<Rightarrow> [] | c # cs \<Rightarrow> if in_class rs c then [(Some c, cs)] else [])"
| "ends (Seq r1 r2) p = concat (map (ends r2) (ends r1 p))"
| "ends (Alt r1 r2) p = ends r1 p @ ends r2 p"
| "ends (Opt r) p = ends r p @ [p]"
| "ends (Star r) p = star_iter (ends r) (length (snd p)) p"
| "ends (Plus r) p = concat (map (\<lambda>q. star_iter (ends r) (length (snd q)) q) (ends r p))"
| "ends Bol p = (if fst p = None then [p] else [])"
| "ends Eol p = (if snd p = [] \<or> snd p = [CHR 0x0A] then [p] else [])"
| "ends WordB p = (if word_before p \<noteq> word_after p then [p] else [])"
| "ends (Look r) p = (if ends r p \<noteq> [] then [p] else [])"

text \<open>\<open>re.match(pattern, s)\<close> as a truth value: some match begins at the start of \<open>s\<close>.\<close>

definition re_match :: "regex \<Rightarrow> string \<Rightarrow> bool" where
  "re_match r s = (ends r (None, s) \<noteq> [])"

text \<open>\<open>re.fullmatch(pattern, s)\<close> as a truth value: some match covers all of \<open>s\<close>.\<close>

definition re_fullmatch :: "regex \<Rightarrow> string \<Rightarrow> bool" where
  "re_fullmatch r s = list_ex (\<lambda>q. snd q = []) (ends r (None, s))"

text \<open>\<open>re.search(r'[a-zA-Z]', s)\<close> as a truth value.\<close>

definition has_letter :: "string \<Rightarrow> bool" where
  "has_letter s = list_ex is_letter s"

text \<open>
  \<open>re.split(r'[-_]', s)\<close>: every single hyphen or underscore is a split point, so two
  adjacent separators enclose an empty segment.
\<close>

fun split_seps :: "string \<Rightarrow> string list" where
  "split_seps [] = [[]]"
| "split_seps (c # cs) =
     (if is_sep c then [] # split_seps cs
      else (case split_seps cs of [] \<Rightarrow> [[c]] | w # ws \<Rightarrow> (c # w) # ws))"

text \<open>
  \<open>re.findall(r, s)\<close> for a pattern without groups: scan left to right; at each position
  take the first match the engine finds, record the matched text and continue after it,
  or move one character on when nothing matches there (or the match is empty).
\<close>

function findall_from :: "regex \<Rightarrow> pos \<Rightarrow> string list" where
  "findall_from r p =
     (case ends r p of
        [] \<Rightarrow> (case snd p of [] \<Rightarrow> [] | c # cs \<Rightarrow> findall_from r (Some c, cs))
      | q # _ \<Rightarrow>
          if length (snd q) < length (snd p)
          then take (length (snd p) - length (snd q)) (snd p) # findall_from r q
          else [] # (case snd p of [] \<Rightarrow> [] | c # cs \<Rightarrow> findall_from r (Some c, cs)))"
  by pat_completeness auto
termination
  by (relation "measure (\<lambda>(r, p). length (snd p))") auto

definition findall :: "regex \<Rightarrow> string \<Rightarrow> string list" where
  "findall r s = findall_from r (None, s)"

section \<open>Tokenizer and renderer\<close>

datatype error = ValueError string | IndexError

text \<open>\<open>[A-Z]?[a-z0-9]+|[A-Z]+(?=[A-Z][a-z]|\b)\<close>, the pattern of the capital-letter split.\<close>

definition cls_upper :: regex where
  "cls_upper = Cls [(CHR ''A'', CHR ''Z'')]"

definition cls_lower :: regex where
  "cls_lower = Cls [(CHR ''a'', CHR ''z'')]"

definition cls_lower_digit :: regex where
  "cls_lower_digit = Cls [(CHR ''a'', CHR ''z''), (CHR ''0'', CHR ''9'')]"

definition WORD_PATTERN :: regex where
  "WORD_PATTERN =
     Alt (Seq (Opt cls_upper) (Plus cls_lower_digit))
         (Seq (Plus cls_upper) (Look (Alt (Seq cls_upper cls_lower) WordB)))"

definition extract_words :: "string \<Rightarrow> error + string list" where
  "extract_words name =
     (if \<not> has_letter name
      then Inl (ValueError (''Name must contain at least one letter: '' @ [CHR 0x27] @ name @ [CHR 0x27]))
      else
        let name = strip_seps name in
        if CHR ''_'' \<in> set name \<or> CHR ''-'' \<in> set name
        then Inr (map lower (split_seps name))
        else
          let words = findall WORD_PATTERN name in
          Inr (if words \<noteq> [] then map lower words else [lower name]))"

text \<open>
  The rendering rules of \<open>convert_case\<close>. \<open>words[0]\<close> raises IndexError on an empty
  list; a style outside the four branches falls off the end of the function, which returns
  Python's \<open>None\<close>.
\<close>

definition apply_case :: "string list \<Rightarrow> string \<Rightarrow> error + string option" where
  "apply_case words target_case =
     (if target_case = ''kebab-case'' then Inr (Some (join ''-'' words))
      else if target_case = ''snake_case'' then Inr (Some (join ''_'' words))
      else if target_case = ''camelCase'' then
        (case words of
           [] \<Rightarrow> Inl IndexError
         | w # ws \<Rightarrow> Inr (Some (w @ concat (map capitalize ws))))
      else if target_case = ''PascalCase'' then Inr (Some (concat (map capitalize words)))
      else Inr None)"

text \<open>
  \<open>[''.join(w[0] for w in words)]\<close>: the first character of every word; \<open>w[0]\<close> raises
  IndexError on an empty word.
\<close>

definition merge_initials :: "string list \<Rightarrow> error + string list" where
  "merge_initials words =
     (if list_ex (\<lambda>w. w = []) words then Inl IndexError else Inr [map hd words])"

text \<open>The argument of \<open>convert_case\<close> is a name (\<open>Inl\<close>) or a list of words (\<open>Inr\<close>).\<close>

definition convert_case :: "string + string list \<Rightarrow> string \<Rightarrow> error + string option" where
  "convert_case name_or_words target_case =
     (case (case name_or_words of Inl name \<Rightarrow> extract_words name | Inr ws \<Rightarrow> Inr ws) of
        Inl e \<Rightarrow> Inl e
      | Inr words \<Rightarrow>
          (case (if length words > 3 then merge_initials words else Inr words) of
             Inl e \<Rightarrow> Inl e
           | Inr words' \<Rightarrow> apply_case words' target_case))"

definition CASE_STYLES :: "string list" where
  "CASE_STYLES = [''kebab-case'', ''snake_case'', ''camelCase'', ''PascalCase'']"

section \<open>The pattern registry and the checker\<close>

definition cls_alnum :: regex where
  "cls_alnum = Cls [(CHR ''a'', CHR ''z''), (CHR ''A'', CHR ''Z''), (CHR ''0'', CHR ''9'')]"

text \<open>\<open>^[a-z0-9]+(-[a-z0-9]+)*$\<close>\<close>

definition KEBAB_PATTERN :: regex where
  "KEBAB_PATTERN =
     Seq Bol (Seq (Plus cls_lower_digit)
       (Seq (Star (Seq (Cls [(CHR ''-'', CHR ''-'')]) (Plus cls_lower_digit))) Eol))"

text \<open>\<open>^[a-z][a-z0-9_]*$\<close>\<close>

definition SNAKE_PATTERN :: regex where
  "SNAKE_PATTERN =
     Seq Bol (Seq cls_lower
       (Seq (Star (Cls [(CHR ''a'', CHR ''z''), (CHR ''0'', CHR ''9''), (CHR ''_'', CHR ''_'')])) Eol))"

text \<open>\<open>^[a-z][a-zA-Z0-9]*$\<close>\<close>

definition CAMEL_PATTERN :: regex where
  "CAMEL_PATTERN = Seq Bol (Seq cls_lower (Seq (Star cls_alnum) Eol))"

text \<open>\<open>^[A-Z][a-zA-Z0-9]*$\<close>\<close>

definition PASCAL_PATTERN :: regex where
  "PASCAL_PATTERN = Seq Bol (Seq cls_upper (Seq (Star cls_alnum) Eol))"

definition CASE_PATTERNS :: "string \<Rightarrow> regex option" where
  "CASE_PATTERNS case_name =
     (if case_name = ''kebab-case'' then Some KEBAB_PATTERN
      else if case_name = ''snake_case'' then Some SNAKE_PATTERN
      else if case_name = ''camelCase'' then Some CAMEL_PATTERN
      else if case_name = ''PascalCase'' then Some PASCAL_PATTERN
      else None)"

text \<open>
  The part of a \<open>Convention\<close> the checker reads: \<open>cases\<close>, the \<open>naming.case\<close> subtree of
  the conventions document, a dictionary from style names to dictionaries whose
  \<open>pattern\<close> entry is the override pattern.
\<close>

record convention =
  cases :: "string \<Rightarrow> (string \<Rightarrow> regex option) option"

text \<open>The empty pattern text is falsy in Python, so it counts as no override.\<close>

definition get_pattern :: "convention \<Rightarrow> string \<Rightarrow> regex option" where
  "get_pattern self case_name =
     (let pattern = (case cases self case_name of None \<Rightarrow> None | Some entry \<Rightarrow> entry ''pattern'')
      in if pattern \<noteq> None \<and> pattern \<noteq> Some Eps then pattern
         else CASE_PATTERNS case_name)"

text \<open>\<open>f"{suggested}"\<close>: Python prints \<open>None\<close> as the text \<open>None\<close>.\<close>

definition format_str :: "string option \<Rightarrow> string" where
  "format_str v = (case v of None \<Rightarrow> ''None'' | Some s \<Rightarrow> s)"

definition check :: "convention \<Rightarrow> string \<Rightarrow> string \<Rightarrow> error + string list" where
  "check self name case_name =
     (case get_pattern self case_name of
        None \<Rightarrow> Inr [''Unknown case style: '' @ case_name]
      | Some pattern \<Rightarrow>
          if \<not> re_match pattern name then
            (case extract_words name of
               Inl e \<Rightarrow> Inl e
             | Inr words \<Rightarrow>
                 if length words > 3
                 then Inr [''Does not match '' @ case_name,
                           ''Too many segments (>3) - needs manual review'']
                 else
                   (case convert_case (Inr words) case_name of
                      Inl e \<Rightarrow> Inl e
                    | Inr suggested \<Rightarrow>
                        if suggested \<noteq> Some name
                        then Inr [''Does not match '' @ case_name,
                                  ''Suggested: '' @ [CHR 0x27] @ format_str suggested @ [CHR 0x27]]
                        else Inr [''Does not match '' @ case_name]))
          else Inr [])"

definition get_suggested_name :: "convention \<Rightarrow> string \<Rightarrow> string \<Rightarrow> error + string option" where
  "get_suggested_name self name case_name = convert_case (Inl name) case_name"

text \<open>A conventions document without a \<open>naming.case\<close> subtree: no pattern is overridden.\<close>

definition no_overrides :: convention where
  "no_overrides = \<lparr>cases = (\<lambda>_. None)\<rparr>"

text \<open>A document that overrides the kebab-case pattern by the unanchored \<open>[a-z]+\<close>.\<close>

definition prefix_override :: convention where
  "prefix_override =
     \<lparr>cases = [''kebab-case'' \<mapsto> [''pattern'' \<mapsto> Plus cls_lower]]\<rparr>"

section \<open>Notions used to state and prove the properties\<close>

text \<open>The characters a pattern can consume (lookaheads and anchors consume nothing).\<close>

primrec accepts :: "regex \<Rightarrow> char \<Rightarrow> bool" where
  "accepts Eps c = False"
| "accepts (Cls rs) c = in_class rs c"
| "accepts (Seq r1 r2) c = (accepts r1 c \<or> accepts r2 c)"
| "accepts (Alt r1 r2) c = (accepts r1 c \<or> accepts r2 c)"
| "accepts (Opt r) c = accepts r c"
| "accepts (Star r) c = accepts r c"
| "accepts (Plus r) c = accepts r c"
| "accepts Bol c = False"
| "accepts Eol c = False"
| "accepts WordB c = False"
| "accepts (Look r) c = False"

text \<open>Whether a pattern may match without consuming a character.\<close>

primrec nullable :: "regex \<Rightarrow> bool" where
  "nullable Eps = True"
| "nullable (Cls rs) = False"
| "nullable (Seq r1 r2) = (nullable r1 \<and> nullable r2)"
| "nullable (Alt r1 r2) = (nullable r1 \<or> nullable r2)"
| "nullable (Opt r) = True"
| "nullable (Star r) = True"
| "nullable (Plus r) = nullable r"
| "nullable Bol = True"
| "nullable Eol = True"
| "nullable WordB = True"
| "nullable (Look r) = True"

text \<open>
  Position \<open>q\<close> is reached from position \<open>p\<close> by consuming characters that satisfy \<open>A\<close>.
\<close>

definition consumed :: "(char \<Rightarrow> bool) \<Rightarrow> pos \<Rightarrow> pos \<Rightarrow> bool" where
  "consumed A p q =
     (\<exists>w. snd p = w @ snd q \<and> list_all A w \<and>
          fst q = (if w = [] then fst p else Some (last w)))"

text \<open>The classes \<open>[a-z0-9]\<close> and \<open>[a-zA-Z0-9]\<close> as predicates.\<close>

definition is_lower_digit :: "char \<Rightarrow> bool" where
  "is_lower_digit c = (is_lower c \<or> is_digit c)"

definition is_alnum :: "char \<Rightarrow> bool" where
  "is_alnum c = (is_lower c \<or> is_upper c \<or> is_digit c)"

text \<open>\<open>s.endswith(c)\<close> for a single character.\<close>

definition ends_with :: "char \<Rightarrow> string \<Rightarrow> bool" where
  "ends_with c s = (s \<noteq> [] \<and> last s = c)"

text \<open>
  Somewhere in the name an uppercase letter follows an uppercase letter and is not followed
  by a lowercase letter.
\<close>

fun unsplit_capital :: "string \<Rightarrow> bool" where
  "unsplit_capital (a # b # cs) =
     ((is_upper a \<and> is_upper b \<and> (cs = [] \<or> \<not> is_lower (hd cs))) \<or> unsplit_capital (b # cs))"
| "unsplit_capital _ = False"

text \<open>
  A word that is capitalized by changing its first character: a lowercase letter followed by
  lowercase letters and digits.
\<close>

definition capital_word :: "string \<Rightarrow> bool" where
  "capital_word w = (w \<noteq> [] \<and> is_lower (hd w) \<and> list_all is_lower_digit w)"

text \<open>A name of ASCII characters only.\<close>

definition ascii :: "string \<Rightarrow> bool" where
  "ascii s = list_all (\<lambda>c. (of_char c :: nat) < 128) s"

section \<open>Basic facts about the tokenizer and the renderer\<close>

lemma split_seps_nonempty: "split_seps s \<noteq> []"
  by (induction s) (auto split: list.splits)

lemma extract_words_nonempty: "extract_words name = Inr ws \<Longrightarrow> ws \<noteq> []"
  by (auto simp: extract_words_def Let_def split_seps_nonempty split: if_splits)

lemma convert_case_short:
  "length ws \<le> 3 \<Longrightarrow> convert_case (Inr ws) style = apply_case ws style"
  by (simp add: convert_case_def)

lemma apply_case_nonempty: "ws \<noteq> [] \<Longrightarrow> \<exists>v. apply_case ws style = Inr v"
  by (cases ws) (auto simp: apply_case_def)

lemma apply_case_builtin:
  "ws \<noteq> [] \<Longrightarrow> style \<in> set CASE_STYLES \<Longrightarrow> \<exists>v. apply_case ws style = Inr (Some v)"
  by (cases ws) (auto simp: apply_case_def CASE_STYLES_def)

lemma apply_case_unknown: "style \<notin> set CASE_STYLES \<Longrightarrow> apply_case ws style = Inr None"
  by (simp add: apply_case_def CASE_STYLES_def)

lemma merge_initials_ok:
  "\<forall>w \<in> set ws. w \<noteq> [] \<Longrightarrow> merge_initials ws = Inr [map hd ws]"
  by (auto simp: merge_initials_def list_ex_iff)

section \<open>Character facts\<close>

lemma upper_code: "is_upper c \<longleftrightarrow> 65 \<le> (of_char c :: nat) \<and> (of_char c :: nat) \<le> 90"
  by (simp add: is_upper_def in_range_def)

lemma lower_code: "is_lower c \<longleftrightarrow> 97 \<le> (of_char c :: nat) \<and> (of_char c :: nat) \<le> 122"
  by (simp add: is_lower_def in_range_def)

lemma digit_code: "is_digit c \<longleftrightarrow> 48 \<le> (of_char c :: nat) \<and> (of_char c :: nat) \<le> 57"
  by (simp add: is_digit_def in_range_def)

lemma sep_code: "is_sep c \<longleftrightarrow> (of_char c :: nat) = 45 \<or> (of_char c :: nat) = 95"
proof -
  have "c = CHR ''-'' \<longleftrightarrow> (of_char c :: nat) = of_char CHR ''-''"
    "c = CHR ''_'' \<longleftrightarrow> (of_char c :: nat) = of_char CHR ''_''"
    by (simp_all only: of_char_eq_iff)
  then show ?thesis by (simp add: is_sep_def)
qed

lemma lower_char_code:
  "(of_char (lower_char c) :: nat) = (if is_upper c then of_char c + 32 else of_char c)"
  by (simp add: lower_char_def upper_code)

lemma upper_char_code:
  "(of_char (upper_char c) :: nat) = (if is_lower c then of_char c - 32 else of_char c)"
  by (auto simp: upper_char_def lower_code)

lemma char_eq_code: "(of_char c :: nat) = of_char d \<Longrightarrow> c = d"
  by simp

lemma lower_char_id: "\<not> is_upper c \<Longrightarrow> lower_char c = c"
  by (simp add: lower_char_def)

lemma lower_char_lower: "is_upper c \<Longrightarrow> is_lower (lower_char c)"
  by (simp add: lower_code lower_char_code) (simp add: upper_code)

lemma upper_lower_char: "is_upper c \<Longrightarrow> upper_char (lower_char c) = c"
  by (rule char_eq_code) (simp add: upper_char_code lower_char_code lower_char_lower)

lemma lower_not_upper: "is_lower c \<Longrightarrow> \<not> is_upper c"
  by (simp add: lower_code upper_code)

lemma digit_not_upper: "is_digit c \<Longrightarrow> \<not> is_upper c"
  by (simp add: digit_code upper_code)

lemma digit_not_lower: "is_digit c \<Longrightarrow> \<not> is_lower c"
  by (simp add: digit_code lower_code)

lemma sep_not_alnum: "is_sep c \<Longrightarrow> \<not> is_upper c \<and> \<not> is_lower c \<and> \<not> is_digit c"
  by (auto simp: sep_code digit_code upper_code lower_code)

lemma lower_char_idem: "lower_char (lower_char c) = lower_char c"
  by (cases "is_upper c") (simp_all add: lower_char_id lower_char_lower lower_not_upper)

lemma lower_idem: "lower (lower s) = lower s"
  by (simp add: lower_def lower_char_idem)

lemma is_letter_lower_char: "is_letter (lower_char c) \<longleftrightarrow> is_letter c"
  by (cases "is_upper c") (simp_all add: lower_char_id lower_char_lower is_letter_def)

lemma has_letter_lower: "has_letter (lower s) \<longleftrightarrow> has_letter s"
  by (simp add: has_letter_def lower_def list_ex_iff is_letter_lower_char)

lemma is_sep_lower_char: "is_sep (lower_char c) \<longleftrightarrow> is_sep c"
  by (cases "is_upper c")
     (auto simp: lower_char_id dest: lower_char_lower sep_not_alnum)

lemma lower_id: "\<forall>c \<in> set s. \<not> is_upper c \<Longrightarrow> lower s = s"
  by (simp add: lower_def lower_char_id map_idI)

lemma upper_char_id: "\<not> is_lower c \<Longrightarrow> upper_char c = c"
  by (simp add: upper_char_def)

section \<open>What a match consumes\<close>

lemma consumed_refl: "consumed A p p"
  by (auto simp: consumed_def)

lemma consumed_trans:
  assumes "consumed A p q" and "consumed A q r"
  shows "consumed A p r"
proof -
  from assms(1) obtain v where v: "snd p = v @ snd q" "list_all A v"
    "fst q = (if v = [] then fst p else Some (last v))"
    by (auto simp: consumed_def)
  from assms(2) obtain w where w: "snd q = w @ snd r" "list_all A w"
    "fst r = (if w = [] then fst q else Some (last w))"
    by (auto simp: consumed_def)
  have "snd p = (v @ w) @ snd r" using v w by simp
  moreover have "list_all A (v @ w)" using v w by simp
  moreover have "fst r = (if v @ w = [] then fst p else Some (last (v @ w)))"
    using v w by auto
  ultimately show ?thesis unfolding consumed_def by blast
qed

lemma consumed_mono:
  "consumed A p q \<Longrightarrow> (\<And>c. A c \<Longrightarrow> B c) \<Longrightarrow> consumed B p q"
  unfolding consumed_def list_all_iff by blast

lemma consumed_length: "consumed A p q \<Longrightarrow> length (snd q) \<le> length (snd p)"
  by (auto simp: consumed_def)

lemma star_iter_consumed:
  assumes "\<And>p q. q \<in> set (f p) \<Longrightarrow> consumed A p q"
  shows "q \<in> set (star_iter f n p) \<Longrightarrow> consumed A p q"
proof (induction n arbitrary: p q)
  case 0
  then show ?case by (simp add: consumed_refl)
next
  case (Suc n)
  from Suc.prems consider "q = p"
    | p' where "p' \<in> set (f p)" "q \<in> set (star_iter f n p')"
    by auto
  then show ?case
  proof cases
    case 1
    then show ?thesis by (simp add: consumed_refl)
  next
    case 2
    from assms 2(1) have "consumed A p p'" .
    moreover from Suc.IH 2(2) have "consumed A p' q" .
    ultimately show ?thesis by (rule consumed_trans)
  qed
qed

lemma ends_consumed: "q \<in> set (ends r p) \<Longrightarrow> consumed (accepts r) p q"
proof (induction r arbitrary: p q)
  case Eps
  then show ?case by (simp add: consumed_refl)
next
  case (Cls rs)
  obtain a s where p: "p = (a, s)" by (cases p)
  from Cls p obtain c cs where s: "s = c # cs" "in_class rs c" "q = (Some c, cs)"
    by (cases s) (simp_all split: if_splits)
  have "snd p = [c] @ snd q" "list_all (in_class rs) [c]"
    "fst q = (if [c] = [] then fst p else Some (last [c]))"
    using p s by simp_all
  then have "consumed (in_class rs) p q" unfolding consumed_def by blast
  then show ?case by (rule consumed_mono) simp
next
  case (Seq r1 r2)
  from Seq.prems obtain p' where p': "p' \<in> set (ends r1 p)" "q \<in> set (ends r2 p')"
    by auto
  have "consumed (accepts (Seq r1 r2)) p p'"
    using Seq.IH(1) [OF p'(1)] by (rule consumed_mono) simp
  moreover have "consumed (accepts (Seq r1 r2)) p' q"
    using Seq.IH(2) [OF p'(2)] by (rule consumed_mono) simp
  ultimately show ?case by (rule consumed_trans)
next
  case (Alt r1 r2)
  from Alt.prems have "q \<in> set (ends r1 p) \<or> q \<in> set (ends r2 p)" by simp
  then show ?case
  proof
    assume "q \<in> set (ends r1 p)"
    from Alt.IH(1) [OF this] show ?thesis by (rule consumed_mono) simp
  next
    assume "q \<in> set (ends r2 p)"
    from Alt.IH(2) [OF this] show ?thesis by (rule consumed_mono) simp
  qed
next
  case (Opt r)
  from Opt.prems have "q \<in> set (ends r p) \<or> q = p" by auto
  then show ?case
  proof
    assume "q \<in> set (ends r p)"
    from Opt.IH [OF this] show ?thesis by simp
  next
    assume "q = p"
    then show ?thesis by (simp add: consumed_refl)
  qed
next
  case (Star r)
  from Star.prems have "q \<in> set (star_iter (ends r) (length (snd p)) p)" by simp
  then show ?case
    using star_iter_consumed [of "ends r" "accepts r"] Star.IH by simp
next
  case (Plus r)
  from Plus.prems obtain p' where p': "p' \<in> set (ends r p)"
    "q \<in> set (star_iter (ends r) (length (snd p')) p')"
    by auto
  have "consumed (accepts r) p p'" using Plus.IH p'(1) .
  moreover have "consumed (accepts r) p' q"
    using star_iter_consumed [of "ends r" "accepts r"] Plus.IH p'(2) by blast
  ultimately show ?case by (simp add: consumed_trans)
next
  case Bol
  then have "q = p" by (simp split: if_splits)
  then show ?case by (simp add: consumed_refl)
next
  case Eol
  then have "q = p" by (simp split: if_splits)
  then show ?case by (simp add: consumed_refl)
next
  case WordB
  then have "q = p" by (simp split: if_splits)
  then show ?case by (simp add: consumed_refl)
next
  case (Look r)
  then have "q = p" by (simp split: if_splits)
  then show ?case by (simp add: consumed_refl)
qed

lemma ends_shorter:
  "q \<in> set (ends r p) \<Longrightarrow> length (snd q) \<le> length (snd p)"
  using ends_consumed consumed_length by blast

lemma star_iter_shorter:
  "q \<in> set (star_iter (ends r) n p) \<Longrightarrow> length (snd q) \<le> length (snd p)"
  using star_iter_consumed [of "ends r" "accepts r"] ends_consumed consumed_length by blast

lemma ends_strict:
  "\<not> nullable r \<Longrightarrow> q \<in> set (ends r p) \<Longrightarrow> length (snd q) < length (snd p)"
proof (induction r arbitrary: p q)
  case (Cls rs)
  obtain a s where p: "p = (a, s)" by (cases p)
  from Cls p obtain c cs where "s = c # cs" "q = (Some c, cs)"
    by (cases s) (simp_all split: if_splits)
  with p show ?case by simp
next
  case (Seq r1 r2)
  from Seq.prems(2) obtain p' where p': "p' \<in> set (ends r1 p)" "q \<in> set (ends r2 p')"
    by auto
  from p' have le: "length (snd p') \<le> length (snd p)" "length (snd q) \<le> length (snd p')"
    by (auto dest: ends_shorter)
  from Seq.prems(1) have "\<not> nullable r1 \<or> \<not> nullable r2" by simp
  then show ?case
  proof
    assume "\<not> nullable r1"
    from Seq.IH(1) [OF this p'(1)] le show ?thesis by simp
  next
    assume "\<not> nullable r2"
    from Seq.IH(2) [OF this p'(2)] le show ?thesis by simp
  qed
next
  case (Alt r1 r2)
  from Alt.prems(1) have n: "\<not> nullable r1" "\<not> nullable r2" by simp_all
  from Alt.prems(2) have "q \<in> set (ends r1 p) \<or> q \<in> set (ends r2 p)" by simp
  then show ?case
  proof
    assume "q \<in> set (ends r1 p)"
    from Alt.IH(1) [OF n(1) this] show ?thesis .
  next
    assume "q \<in> set (ends r2 p)"
    from Alt.IH(2) [OF n(2) this] show ?thesis .
  qed
next
  case (Plus r)
  from Plus.prems(2) obtain p' where p': "p' \<in> set (ends r p)"
    "q \<in> set (star_iter (ends r) (length (snd p')) p')"
    by auto
  from Plus.prems(1) have "\<not> nullable r" by simp
  from Plus.IH [OF this p'(1)] star_iter_shorter [OF p'(2)] show ?case by simp
qed (simp_all only: nullable.simps simp_thms)

section \<open>Repetition and character classes\<close>

lemma ends_Star_Cls_Nil: "ends (Star (Cls rs)) (a, []) = [(a, [])]"
  by simp

lemma ends_Star_Cls_Cons:
  "ends (Star (Cls rs)) (a, c # cs) =
     (if in_class rs c then ends (Star (Cls rs)) (Some c, cs) @ [(a, c # cs)]
      else [(a, c # cs)])"
  by simp

lemma ends_Plus_Cls:
  "ends (Plus (Cls rs)) (a, s) =
     (case s of [] \<Rightarrow> []
      | c # cs \<Rightarrow> if in_class rs c then ends (Star (Cls rs)) (Some c, cs) else [])"
  by (cases s) simp_all

lemma ends_Star_Cls_hd:
  "\<exists>a' qs. ends (Star (Cls rs)) (a, s) = (a', dropWhile (in_class rs) s) # qs"
proof (induction s arbitrary: a)
  case Nil
  show ?case by simp
next
  case (Cons c cs)
  show ?case
  proof (cases "in_class rs c")
    case True
    from Cons.IH [of "Some c"] obtain a' qs
      where "ends (Star (Cls rs)) (Some c, cs) = (a', dropWhile (in_class rs) cs) # qs"
      by blast
    with True show ?thesis by (simp only: ends_Star_Cls_Cons) simp
  next
    case False
    then show ?thesis by (simp only: ends_Star_Cls_Cons) simp
  qed
qed

lemma in_class_lower_digit [simp]:
  "in_class [(CHR ''a'', CHR ''z''), (CHR ''0'', CHR ''9'')] c = is_lower_digit c"
  by (simp add: in_class_def is_lower_digit_def is_lower_def is_digit_def)

lemma in_class_upper [simp]: "in_class [(CHR ''A'', CHR ''Z'')] c = is_upper c"
  by (simp add: in_class_def is_upper_def)

lemma in_class_lower [simp]: "in_class [(CHR ''a'', CHR ''z'')] c = is_lower c"
  by (simp add: in_class_def is_lower_def)

lemma in_class_alnum [simp]:
  "in_class [(CHR ''a'', CHR ''z''), (CHR ''A'', CHR ''Z''), (CHR ''0'', CHR ''9'')] c = is_alnum c"
  by (simp add: in_class_def is_alnum_def is_lower_def is_upper_def is_digit_def)

section \<open>The first match of the word pattern\<close>

lemma lower_digit_not_upper: "is_lower_digit c \<Longrightarrow> \<not> is_upper c"
  by (auto simp: is_lower_digit_def lower_not_upper digit_not_upper)

lemma ends_word_nil: "ends WORD_PATTERN (a, []) = []"
  by (simp add: WORD_PATTERN_def cls_upper_def cls_lower_digit_def cls_lower_def)

lemma ends_word_lower_digit:
  assumes "is_lower_digit c"
  shows "\<exists>a' qs. ends WORD_PATTERN (a, c # cs) = (a', dropWhile is_lower_digit cs) # qs"
proof -
  from ends_Star_Cls_hd [of "[(CHR ''a'', CHR ''z''), (CHR ''0'', CHR ''9'')]" "Some c" cs]
  obtain a' qs where
    "ends (Star cls_lower_digit) (Some c, cs) = (a', dropWhile is_lower_digit cs) # qs"
    unfolding cls_lower_digit_def in_class_lower_digit [abs_def] by blast
  moreover have "ends (Plus cls_lower_digit) (a, c # cs) = ends (Star cls_lower_digit) (Some c, cs)"
    using assms by (simp add: cls_lower_digit_def)
  moreover have "ends (Opt cls_upper) (a, c # cs) = [(a, c # cs)]"
    using assms by (simp add: cls_upper_def lower_digit_not_upper)
  ultimately show ?thesis
    by (simp add: WORD_PATTERN_def)
qed

lemma ends_word_upper_lower_digit:
  assumes "is_upper c" and "is_lower_digit d"
  shows "\<exists>a' qs. ends WORD_PATTERN (a, c # d # ds) = (a', dropWhile is_lower_digit ds) # qs"
proof -
  from ends_Star_Cls_hd [of "[(CHR ''a'', CHR ''z''), (CHR ''0'', CHR ''9'')]" "Some d" ds]
  obtain a' qs where
    "ends (Star cls_lower_digit) (Some d, ds) = (a', dropWhile is_lower_digit ds) # qs"
    unfolding cls_lower_digit_def in_class_lower_digit [abs_def] by blast
  moreover have "ends (Plus cls_lower_digit) (Some c, d # ds) = ends (Star cls_lower_digit) (Some d, ds)"
    using assms by (simp add: cls_lower_digit_def)
  moreover have "ends (Opt cls_upper) (a, c # d # ds) = [(Some c, d # ds), (a, c # d # ds)]"
    using assms by (simp add: cls_upper_def)
  ultimately show ?thesis
    by (simp add: WORD_PATTERN_def)
qed

lemma ends_word_upper_boundary:
  assumes "is_upper c" and "cs = [] \<or> \<not> is_word_char (hd cs)"
  shows "ends WORD_PATTERN (a, c # cs) = [(Some c, cs)]"
proof -
  from assms(2) have nw: "\<not> word_after (Some c, cs)"
    by (cases cs) (auto simp: word_after_def)
  from assms(1) have wb: "word_before (Some c, cs)"
    by (simp add: word_before_def is_word_char_def is_letter_def)
  from assms(2) have nu: "cs = [] \<or> \<not> is_upper (hd cs)"
    by (auto simp: is_word_char_def is_letter_def)
  from assms(2) have nl: "cs = [] \<or> \<not> is_lower_digit (hd cs)"
    by (auto simp: is_word_char_def is_letter_def is_lower_digit_def)
  have 1: "ends (Plus cls_lower_digit) (Some c, cs) = []"
    using nl by (cases cs) (simp_all add: cls_lower_digit_def)
  have 2: "ends (Plus cls_lower_digit) (a, c # cs) = []"
    using assms(1) by (auto simp: cls_lower_digit_def dest: lower_digit_not_upper)
  have 3: "ends (Opt cls_upper) (a, c # cs) = [(Some c, cs), (a, c # cs)]"
    using assms(1) by (simp add: cls_upper_def)
  have 4: "ends (Plus cls_upper) (a, c # cs) = [(Some c, cs)]"
    using assms(1) nu by (cases cs) (simp_all add: cls_upper_def)
  have 5: "ends (Look (Alt (Seq cls_upper cls_lower) WordB)) (Some c, cs) = [(Some c, cs)]"
    using nw wb by simp
  have "ends (Seq (Opt cls_upper) (Plus cls_lower_digit)) (a, c # cs) = []"
    using 1 2 3 by (simp del: ends.simps(5,7) add: ends.simps(3))
  moreover have "ends (Seq (Plus cls_upper) (Look (Alt (Seq cls_upper cls_lower) WordB))) (a, c # cs)
                 = [(Some c, cs)]"
    using 4 5 by (simp del: ends.simps(7,11) add: ends.simps(3))
  ultimately show ?thesis
    by (simp only: WORD_PATTERN_def ends.simps(4)) simp
qed

lemma ends_word_upper_pair:
  assumes "is_upper c" and "is_upper d" and "is_lower e"
  shows "ends WORD_PATTERN (a, c # d # e # es) = [(Some c, d # e # es)]"
proof -
  from assms(3) have e: "\<not> is_upper e" by (rule lower_not_upper)
  from assms(2) have d: "\<not> is_lower_digit d" by (auto dest: lower_digit_not_upper)
  from assms(1) have c: "\<not> is_lower_digit c" by (auto dest: lower_digit_not_upper)
  have 1: "ends (Plus cls_lower_digit) (Some c, d # e # es) = []"
    using d by (simp add: cls_lower_digit_def)
  have 2: "ends (Plus cls_lower_digit) (a, c # d # e # es) = []"
    using c by (simp add: cls_lower_digit_def)
  have 3: "ends (Opt cls_upper) (a, c # d # e # es) = [(Some c, d # e # es), (a, c # d # e # es)]"
    using assms(1) by (simp add: cls_upper_def)
  have 4: "ends (Plus cls_upper) (a, c # d # e # es) = [(Some d, e # es), (Some c, d # e # es)]"
    using assms(1,2) e by (simp add: cls_upper_def)
  have wb: "word_before (Some d, e # es)" "word_after (Some d, e # es)"
    using assms(2,3) by (simp_all add: word_before_def word_after_def is_word_char_def is_letter_def)
  have 5: "ends (Look (Alt (Seq cls_upper cls_lower) WordB)) (Some d, e # es) = []"
    using e wb by (simp add: cls_upper_def cls_lower_def)
  have 6: "ends (Look (Alt (Seq cls_upper cls_lower) WordB)) (Some c, d # e # es)
             = [(Some c, d # e # es)]"
    using assms(2,3) by (simp add: cls_upper_def cls_lower_def)
  have "ends (Seq (Opt cls_upper) (Plus cls_lower_digit)) (a, c # d # e # es) = []"
    using 1 2 3 by (simp del: ends.simps(5,7) add: ends.simps(3))
  moreover have
    "ends (Seq (Plus cls_upper) (Look (Alt (Seq cls_upper cls_lower) WordB))) (a, c # d # e # es)
       = [(Some c, d # e # es)]"
    using 4 5 6 by (simp del: ends.simps(7,11) add: ends.simps(3))
  ultimately show ?thesis
    by (simp only: WORD_PATTERN_def ends.simps(4)) simp
qed

lemma word_pattern_not_nullable: "\<not> nullable WORD_PATTERN"
  by (simp add: WORD_PATTERN_def cls_upper_def cls_lower_digit_def)

lemma accepts_word_pattern: "accepts WORD_PATTERN c \<Longrightarrow> is_alnum c"
  by (auto simp: WORD_PATTERN_def cls_upper_def cls_lower_digit_def is_alnum_def is_lower_digit_def)

section \<open>Scanning for words\<close>

declare findall_from.simps [simp del]

lemma findall_from_match:
  "ends r p = q # qs \<Longrightarrow> length (snd q) < length (snd p) \<Longrightarrow>
   findall_from r p = take (length (snd p) - length (snd q)) (snd p) # findall_from r q"
  by (subst findall_from.simps) simp

lemma findall_from_skip:
  "ends r (a, c # cs) = [] \<Longrightarrow> findall_from r (a, c # cs) = findall_from r (Some c, cs)"
  by (subst findall_from.simps) simp

lemma findall_word_nil: "findall_from WORD_PATTERN (a, []) = []"
  by (subst findall_from.simps) (simp add: ends_word_nil)

lemma take_run:
  "take (Suc (length cs) - length (dropWhile P cs)) (c # cs) = c # takeWhile P cs"
proof -
  have "length cs = length (takeWhile P cs) + length (dropWhile P cs)"
    by (simp only: length_append [symmetric] takeWhile_dropWhile_id)
  then have "Suc (length cs) - length (dropWhile P cs) = Suc (length (takeWhile P cs))"
    by simp
  moreover have "take (length (takeWhile P cs)) cs = takeWhile P cs"
    using append_eq_conv_conj [of "takeWhile P cs" "dropWhile P cs" cs] by simp
  ultimately show ?thesis by simp
qed

lemma findall_word_lower_digit:
  assumes "is_lower_digit c"
  shows "\<exists>a'. findall_from WORD_PATTERN (a, c # cs) =
           (c # takeWhile is_lower_digit cs)
           # findall_from WORD_PATTERN (a', dropWhile is_lower_digit cs)"
proof -
  from ends_word_lower_digit [OF assms, of a cs] obtain a' qs
    where e: "ends WORD_PATTERN (a, c # cs) = (a', dropWhile is_lower_digit cs) # qs"
    by blast
  have "length (dropWhile is_lower_digit cs) \<le> length cs" by (rule length_dropWhile_le)
  then have "length (snd (a', dropWhile is_lower_digit cs)) < length (snd (a, c # cs))"
    by simp
  from findall_from_match [OF e this]
  have "findall_from WORD_PATTERN (a, c # cs) =
          (c # takeWhile is_lower_digit cs)
          # findall_from WORD_PATTERN (a', dropWhile is_lower_digit cs)"
    by (simp add: take_run)
  then show ?thesis by blast
qed

lemma findall_word_upper_lower_digit:
  assumes "is_upper c" and "is_lower_digit d"
  shows "\<exists>a'. findall_from WORD_PATTERN (a, c # d # ds) =
           (c # d # takeWhile is_lower_digit ds)
           # findall_from WORD_PATTERN (a', dropWhile is_lower_digit ds)"
proof -
  from ends_word_upper_lower_digit [OF assms, of a ds] obtain a' qs
    where e: "ends WORD_PATTERN (a, c # d # ds) = (a', dropWhile is_lower_digit ds) # qs"
    by blast
  have "length (dropWhile is_lower_digit ds) \<le> length ds" by (rule length_dropWhile_le)
  then have "length (snd (a', dropWhile is_lower_digit ds)) < length (snd (a, c # d # ds))"
    by simp
  from findall_from_match [OF e this]
  have "findall_from WORD_PATTERN (a, c # d # ds) =
          take (Suc (Suc (length ds)) - length (dropWhile is_lower_digit ds)) (c # d # ds)
          # findall_from WORD_PATTERN (a', dropWhile is_lower_digit ds)"
    by simp
  moreover have "take (Suc (Suc (length ds)) - length (dropWhile is_lower_digit ds)) (c # d # ds)
                 = c # d # takeWhile is_lower_digit ds"
    using take_run [of "d # ds" is_lower_digit c] assms(2) by simp
  ultimately have "findall_from WORD_PATTERN (a, c # d # ds) =
          (c # d # takeWhile is_lower_digit ds)
          # findall_from WORD_PATTERN (a', dropWhile is_lower_digit ds)"
    by simp
  then show ?thesis by blast
qed

lemma findall_word_upper_boundary:
  assumes "is_upper c" and "cs = [] \<or> \<not> is_word_char (hd cs)"
  shows "findall_from WORD_PATTERN (a, c # cs) = [c] # findall_from WORD_PATTERN (Some c, cs)"
  using findall_from_match [OF ends_word_upper_boundary [OF assms, of a]]
  by simp

lemma findall_word_upper_pair:
  assumes "is_upper c" and "is_upper d" and "is_lower e"
  shows "findall_from WORD_PATTERN (a, c # d # e # es)
           = [c] # findall_from WORD_PATTERN (Some c, d # e # es)"
  using findall_from_match [OF ends_word_upper_pair [OF assms, of a es]]
  by simp

section \<open>Words of names written with capitals\<close>

lemma unsplit_capital_Cons: "unsplit_capital cs \<Longrightarrow> unsplit_capital (c # cs)"
  by (cases cs) simp_all

lemma unsplit_capital_dropWhile: "unsplit_capital (dropWhile P cs) \<Longrightarrow> unsplit_capital cs"
  by (induction cs) (auto simp: unsplit_capital_Cons split: if_splits)

lemma unsplit_capital_rest:
  "\<not> unsplit_capital (c # cs) \<Longrightarrow> \<not> unsplit_capital (dropWhile P cs)"
  using unsplit_capital_Cons unsplit_capital_dropWhile by blast

lemma list_all_dropWhile: "list_all A cs \<Longrightarrow> list_all A (dropWhile P cs)"
  by (induction cs) simp_all

lemma hd_dropWhile_alnum:
  assumes "list_all is_alnum cs"
  shows "dropWhile is_lower_digit cs = [] \<or> is_upper (hd (dropWhile is_lower_digit cs))"
proof (cases "dropWhile is_lower_digit cs")
  case Nil
  then show ?thesis by simp
next
  case (Cons d ds)
  then have "\<not> is_lower_digit d" using hd_dropWhile [of is_lower_digit cs] by simp
  moreover from assms have "list_all is_alnum (dropWhile is_lower_digit cs)"
    by (rule list_all_dropWhile)
  with Cons have "is_alnum d" by simp
  ultimately have "is_upper d" by (auto simp: is_alnum_def is_lower_digit_def)
  with Cons show ?thesis by simp
qed

lemma lower_run: "lower (takeWhile is_lower_digit cs) = takeWhile is_lower_digit cs"
  by (rule lower_id) (auto dest: set_takeWhileD lower_digit_not_upper)

lemma capitalize_lower_token:
  "is_upper c \<Longrightarrow>
   capitalize (lower (c # takeWhile is_lower_digit cs)) = c # takeWhile is_lower_digit cs"
  by (simp add: lower_def [of "c # _"] upper_lower_char)
     (simp add: lower_run lower_def [symmetric])

lemma capital_words:
  assumes "list_all is_alnum s" and "\<not> unsplit_capital s" and "s = [] \<or> is_upper (hd s)"
  shows "concat (map (capitalize \<circ> lower) (findall_from WORD_PATTERN (a, s))) = s"
  using assms
proof (induction s arbitrary: a rule: length_induct)
  case (1 s)
  show ?case
  proof (cases s)
    case Nil
    then show ?thesis by (simp add: findall_word_nil)
  next
    case (Cons c cs)
    with "1.prems" have c: "is_upper c" by simp
    have one: "capitalize (lower [c]) = [c]"
      using c by (simp add: lower_def upper_lower_char)
    show ?thesis
    proof (cases cs)
      case Nil
      with Cons c show ?thesis
        by (simp add: findall_word_upper_boundary findall_word_nil upper_lower_char lower_def)
    next
      case cs: (Cons d ds)
      from "1.prems"(1) Cons cs have alnum: "is_alnum d" "list_all is_alnum ds" by simp_all
      show ?thesis
      proof (cases "is_upper d")
        case True
        from "1.prems"(2) Cons cs c True have "ds \<noteq> [] \<and> is_lower (hd ds)"
          by auto
        then obtain e es where ds: "ds = e # es" "is_lower e" by (cases ds) auto
        from findall_word_upper_pair [OF c True ds(2), of a es]
        have f: "findall_from WORD_PATTERN (a, s)
                   = [c] # findall_from WORD_PATTERN (Some c, cs)"
          using Cons cs ds(1) by simp
        have len: "length cs < length s" using Cons by simp
        from "1.prems"(1) Cons have r1: "list_all is_alnum cs" by simp
        from "1.prems"(2) Cons have r2: "\<not> unsplit_capital cs"
          using unsplit_capital_Cons by blast
        from True cs have r3: "cs = [] \<or> is_upper (hd cs)" by simp
        from "1.IH" len r1 r2 r3
        have "concat (map (capitalize \<circ> lower) (findall_from WORD_PATTERN (Some c, cs))) = cs"
          by blast
        with f one Cons show ?thesis by (simp add: comp_def)
      next
        case False
        with alnum(1) have d: "is_lower_digit d" by (auto simp: is_alnum_def is_lower_digit_def)
        let ?r = "dropWhile is_lower_digit ds"
        from findall_word_upper_lower_digit [OF c d, of a ds] obtain a' where
          f: "findall_from WORD_PATTERN (a, c # d # ds) =
                (c # d # takeWhile is_lower_digit ds) # findall_from WORD_PATTERN (a', ?r)"
          by blast
        have len: "length ?r < length s"
          using Cons cs length_dropWhile_le [of is_lower_digit ds] by simp
        from alnum(2) have r1: "list_all is_alnum ?r" by (rule list_all_dropWhile)
        from "1.prems"(2) Cons cs have "\<not> unsplit_capital (d # ds)"
          using unsplit_capital_Cons by blast
        then have r2: "\<not> unsplit_capital ?r" by (rule unsplit_capital_rest)
        have r3: "?r = [] \<or> is_upper (hd ?r)" using alnum(2) by (rule hd_dropWhile_alnum)
        from "1.IH" len r1 r2 r3
        have ih: "concat (map (capitalize \<circ> lower) (findall_from WORD_PATTERN (a', ?r))) = ?r"
          by blast
        have tok: "capitalize (lower (c # d # takeWhile is_lower_digit ds))
                     = c # d # takeWhile is_lower_digit ds"
          using capitalize_lower_token [OF c, of "d # ds"] d by simp
        from f ih tok Cons cs show ?thesis by (simp add: comp_def)
      qed
    qed
  qed
qed

section \<open>Splitting and joining\<close>

lemma join_Cons_Cons: "join sep ((c # w) # ws) = c # join sep (w # ws)"
  by (cases ws) simp_all

lemma join_split_seps:
  assumes "is_sep x" and "\<forall>c \<in> set s. is_sep c \<longrightarrow> c = x"
  shows "join [x] (split_seps s) = s"
  using assms(2)
proof (induction s)
  case Nil
  show ?case by simp
next
  case (Cons c cs)
  then have ih: "join [x] (split_seps cs) = cs" by simp
  obtain w ws where ws: "split_seps cs = w # ws"
    using split_seps_nonempty [of cs] by (cases "split_seps cs") auto
  show ?case
  proof (cases "is_sep c")
    case True
    with Cons.prems have "c = x" by simp
    with True ws ih show ?thesis by simp
  next
    case False
    with ws ih show ?thesis by (simp add: join_Cons_Cons)
  qed
qed

lemma split_seps_lower: "map lower (split_seps s) = split_seps (lower s)"
proof (induction s)
  case Nil
  show ?case by (simp add: lower_def)
next
  case (Cons c cs)
  obtain w ws where ws: "split_seps cs = w # ws"
    using split_seps_nonempty [of cs] by (cases "split_seps cs") auto
  with Cons have "split_seps (lower cs) = lower w # map lower ws" by simp
  with ws show ?case
    by (simp add: lower_def [of "c # _"] is_sep_lower_char)
       (simp add: lower_def)
qed

lemma split_seps_plain: "\<forall>c \<in> set w. \<not> is_sep c \<Longrightarrow> split_seps w = [w]"
  by (induction w) simp_all

lemma split_seps_append:
  "\<forall>c \<in> set w. \<not> is_sep c \<Longrightarrow> is_sep x \<Longrightarrow>
   split_seps (w @ x # rest) = w # split_seps rest"
  by (induction w) simp_all

lemma split_seps_join:
  assumes "is_sep x"
  shows "ws \<noteq> [] \<Longrightarrow> \<forall>w \<in> set ws. \<forall>c \<in> set w. \<not> is_sep c \<Longrightarrow>
         split_seps (join [x] ws) = ws"
proof (induction ws)
  case Nil
  then show ?case by simp
next
  case (Cons w vs)
  from Cons.prems(2) have w: "\<forall>c \<in> set w. \<not> is_sep c" by simp
  show ?case
  proof (cases vs)
    case Nil
    with w show ?thesis by (simp add: split_seps_plain)
  next
    case (Cons v us)
    with Cons.IH Cons.prems(2) have "split_seps (join [x] vs) = vs" by simp
    with Cons w assms show ?thesis by (simp add: split_seps_append)
  qed
qed

lemma strip_seps_id:
  assumes "s \<noteq> []" and "\<not> is_sep (hd s)" and "\<not> is_sep (last s)"
  shows "strip_seps s = s"
proof -
  from assms(1,2) have "dropWhile is_sep s = s" by (cases s) simp_all
  moreover from assms(1,3) have "dropWhile is_sep (rev s) = rev s"
    by (cases "rev s") (simp_all add: hd_rev [symmetric])
  ultimately show ?thesis by (simp add: strip_seps_def)
qed

section \<open>The shape of names the built-in patterns accept\<close>

lemma star_iter_invariant:
  assumes "\<And>p q. q \<in> set (f p) \<Longrightarrow> P q"
  shows "P p \<Longrightarrow> q \<in> set (star_iter f n p) \<Longrightarrow> P q"
proof (induction n arbitrary: p)
  case 0
  then show ?case by simp
next
  case (Suc n)
  from Suc.prems(2) consider "q = p"
    | p' where "p' \<in> set (f p)" "q \<in> set (star_iter f n p')"
    by auto
  then show ?case
  proof cases
    case 1
    with Suc.prems(1) show ?thesis by simp
  next
    case 2
    from assms 2(1) have "P p'" .
    from Suc.IH [OF this 2(2)] show ?thesis .
  qed
qed

lemma anchored_match:
  assumes "re_match (Seq Bol (Seq r1 (Seq r2 Eol))) s" and "\<not> ends_with (CHR 0x0A) s"
  shows "\<exists>p q. p \<in> set (ends r1 (None, s)) \<and> q \<in> set (ends r2 p) \<and> snd q = []"
proof -
  have "ends (Seq Bol (Seq r1 (Seq r2 Eol))) (None, s) \<noteq> []"
    using assms(1) unfolding re_match_def .
  then obtain q where "q \<in> set (ends (Seq Bol (Seq r1 (Seq r2 Eol))) (None, s))"
    by (cases "ends (Seq Bol (Seq r1 (Seq r2 Eol))) (None, s)") auto
  then obtain p q' where p: "p \<in> set (ends r1 (None, s))" and q': "q' \<in> set (ends r2 p)"
    and q: "q \<in> set (ends Eol q')"
    by auto
  from q have e: "snd q' = [] \<or> snd q' = [CHR 0x0A]" by (simp split: if_splits)
  from p q' have "consumed (accepts r1) (None, s) p" "consumed (accepts r2) p q'"
    by (auto dest: ends_consumed)
  then obtain v w where "s = v @ snd p" "snd p = w @ snd q'"
    by (auto simp: consumed_def)
  then have "s = (v @ w) @ snd q'" by simp
  with assms(2) have "snd q' \<noteq> [CHR 0x0A]"
    by (auto simp: ends_with_def)
  with e have "snd q' = []" by simp
  with p q' show ?thesis by blast
qed

lemma ends_Cls_iff:
  "q \<in> set (ends (Cls rs) (a, s)) \<longleftrightarrow> (\<exists>c cs. s = c # cs \<and> in_class rs c \<and> q = (Some c, cs))"
  by (cases s) auto

lemma consumed_all:
  "consumed A (a, s) q \<Longrightarrow> snd q = [] \<Longrightarrow> list_all A s \<and> (s \<noteq> [] \<longrightarrow> fst q = Some (last s))"
  by (auto simp: consumed_def)

lemma in_range_single: "in_range x x c \<longleftrightarrow> c = x"
proof
  assume "in_range x x c"
  then have "(of_char c :: nat) \<le> of_char x" "(of_char x :: nat) \<le> of_char c"
    by (simp_all add: in_range_def)
  then have "(of_char c :: nat) = of_char x" by (rule le_antisym)
  then show "c = x" by simp
qed (simp add: in_range_def)

lemma snake_shape:
  assumes "re_match SNAKE_PATTERN s" and "\<not> ends_with (CHR 0x0A) s"
  shows "\<exists>c cs. s = c # cs \<and> is_lower c \<and> list_all (\<lambda>c. is_lower_digit c \<or> c = CHR ''_'') cs"
proof -
  let ?r2 = "Star (Cls [(CHR ''a'', CHR ''z''), (CHR ''0'', CHR ''9''), (CHR ''_'', CHR ''_'')])"
  from anchored_match [OF assms [unfolded SNAKE_PATTERN_def]]
  obtain p q where p: "p \<in> set (ends cls_lower (None, s))" and q: "q \<in> set (ends ?r2 p)"
    and e: "snd q = []"
    by blast
  from p obtain c cs where s: "s = c # cs" "is_lower c" "p = (Some c, cs)"
    unfolding cls_lower_def ends_Cls_iff by auto
  from q have "consumed (accepts ?r2) p q" by (rule ends_consumed)
  with s e have "list_all (accepts ?r2) cs" by (auto dest: consumed_all)
  moreover have "accepts ?r2 c \<Longrightarrow> is_lower_digit c \<or> c = CHR ''_''" for c
    by (auto simp: in_class_def in_range_single is_lower_digit_def is_lower_def is_digit_def)
  ultimately have "list_all (\<lambda>c. is_lower_digit c \<or> c = CHR ''_'') cs"
    unfolding list_all_iff by blast
  with s show ?thesis by blast
qed

lemma alnum_shape:
  assumes "re_match (Seq Bol (Seq (Cls rs) (Seq (Star cls_alnum) Eol))) s"
    and "\<not> ends_with (CHR 0x0A) s"
  shows "\<exists>c cs. s = c # cs \<and> in_class rs c \<and> list_all is_alnum cs"
proof -
  from anchored_match [OF assms]
  obtain p q where p: "p \<in> set (ends (Cls rs) (None, s))"
    and q: "q \<in> set (ends (Star cls_alnum) p)" and e: "snd q = []"
    by blast
  from p obtain c cs where s: "s = c # cs" "in_class rs c" "p = (Some c, cs)"
    unfolding ends_Cls_iff by auto
  from q have "consumed (accepts (Star cls_alnum)) p q" by (rule ends_consumed)
  with s e have "list_all (accepts (Star cls_alnum)) cs" by (auto dest: consumed_all)
  then have "list_all is_alnum cs" by (simp add: cls_alnum_def list_all_iff)
  with s show ?thesis by blast
qed

lemma camel_shape:
  assumes "re_match CAMEL_PATTERN s" and "\<not> ends_with (CHR 0x0A) s"
  shows "\<exists>c cs. s = c # cs \<and> is_lower c \<and> list_all is_alnum cs"
  using alnum_shape [OF assms [unfolded CAMEL_PATTERN_def cls_lower_def]] by simp

lemma pascal_shape:
  assumes "re_match PASCAL_PATTERN s" and "\<not> ends_with (CHR 0x0A) s"
  shows "\<exists>c cs. s = c # cs \<and> is_upper c \<and> list_all is_alnum cs"
  using alnum_shape [OF assms [unfolded PASCAL_PATTERN_def cls_upper_def]] by simp

lemma plus_lower_digit_last:
  assumes "q \<in> set (ends (Plus cls_lower_digit) p)"
  shows "\<exists>d. fst q = Some d \<and> is_lower_digit d"
proof -
  from assms have "consumed (accepts (Plus cls_lower_digit)) p q" by (rule ends_consumed)
  then obtain w where w: "snd p = w @ snd q" "list_all (accepts (Plus cls_lower_digit)) w"
    "fst q = (if w = [] then fst p else Some (last w))"
    by (auto simp: consumed_def)
  have "\<not> nullable (Plus cls_lower_digit)" by (simp add: cls_lower_digit_def)
  from ends_strict [OF this assms] w(1) have ne: "w \<noteq> []" by auto
  then have "last w \<in> set w" by simp
  with w(2) have "is_lower_digit (last w)"
    by (auto simp: list_all_iff cls_lower_digit_def)
  with w(3) ne show ?thesis by simp
qed

lemma kebab_shape:
  assumes "re_match KEBAB_PATTERN s" and "\<not> ends_with (CHR 0x0A) s"
  shows "s \<noteq> [] \<and> is_lower_digit (hd s) \<and> is_lower_digit (last s) \<and>
         list_all (\<lambda>c. is_lower_digit c \<or> c = CHR ''-'') s"
proof -
  let ?seg = "Seq (Cls [(CHR ''-'', CHR ''-'')]) (Plus cls_lower_digit)"
  from anchored_match [OF assms [unfolded KEBAB_PATTERN_def]]
  obtain p q where p: "p \<in> set (ends (Plus cls_lower_digit) (None, s))"
    and q: "q \<in> set (ends (Star ?seg) p)" and e: "snd q = []"
    by blast
  from p obtain c cs where s: "s = c # cs" "is_lower_digit c"
    by (cases s) (auto simp: cls_lower_digit_def split: if_splits)
  have inv: "\<exists>d. fst q = Some d \<and> is_lower_digit d"
  proof (rule star_iter_invariant [of "ends ?seg" _ p q "length (snd p)"])
    fix p' q' assume "q' \<in> set (ends ?seg p')"
    then obtain p'' where "q' \<in> set (ends (Plus cls_lower_digit) p'')" by auto
    then show "\<exists>d. fst q' = Some d \<and> is_lower_digit d" by (rule plus_lower_digit_last)
  next
    from p show "\<exists>d. fst p = Some d \<and> is_lower_digit d" by (rule plus_lower_digit_last)
  next
    from q show "q \<in> set (star_iter (ends ?seg) (length (snd p)) p)" by simp
  qed
  have "consumed (accepts KEBAB_PATTERN) (None, s) p"
    using ends_consumed [OF p] by (rule consumed_mono) (simp add: KEBAB_PATTERN_def)
  moreover have "consumed (accepts KEBAB_PATTERN) p q"
    using ends_consumed [OF q] by (rule consumed_mono) (simp add: KEBAB_PATTERN_def)
  ultimately have "consumed (accepts KEBAB_PATTERN) (None, s) q" by (rule consumed_trans)
  from consumed_all [OF this e] s
  have all: "list_all (accepts KEBAB_PATTERN) s" and "fst q = Some (last s)" by simp_all
  with inv have "is_lower_digit (last s)" by auto
  moreover have "accepts KEBAB_PATTERN c \<Longrightarrow> is_lower_digit c \<or> c = CHR ''-''" for c
    by (auto simp: KEBAB_PATTERN_def cls_lower_digit_def in_class_def in_range_single
          is_lower_digit_def is_lower_def is_digit_def)
  with all have "list_all (\<lambda>c. is_lower_digit c \<or> c = CHR ''-'') s"
    unfolding list_all_iff by blast
  ultimately show ?thesis using s by simp
qed

lemma anchored_chars:
  assumes "re_match (Seq Bol (Seq r1 (Seq r2 Eol))) s"
  shows "ends r1 (None, s) \<noteq> [] \<and>
         list_all (\<lambda>c. accepts r1 c \<or> accepts r2 c \<or> c = CHR 0x0A) s"
proof -
  have "ends (Seq Bol (Seq r1 (Seq r2 Eol))) (None, s) \<noteq> []"
    using assms unfolding re_match_def .
  then obtain q where "q \<in> set (ends (Seq Bol (Seq r1 (Seq r2 Eol))) (None, s))"
    by (cases "ends (Seq Bol (Seq r1 (Seq r2 Eol))) (None, s)") auto
  then obtain p q' where p: "p \<in> set (ends r1 (None, s))" and q': "q' \<in> set (ends r2 p)"
    and q: "q \<in> set (ends Eol q')"
    by auto
  from q have e: "snd q' = [] \<or> snd q' = [CHR 0x0A]" by (simp split: if_splits)
  from ends_consumed [OF p] obtain v where v: "s = v @ snd p" "list_all (accepts r1) v"
    by (auto simp: consumed_def)
  from ends_consumed [OF q'] obtain w where w: "snd p = w @ snd q'" "list_all (accepts r2) w"
    by (auto simp: consumed_def)
  from v(1) w(1) have "s = v @ w @ snd q'" by simp
  with v(2) w(2) e have "list_all (\<lambda>c. accepts r1 c \<or> accepts r2 c \<or> c = CHR 0x0A) s"
    by (auto simp: list_all_iff)
  moreover from p have "ends r1 (None, s) \<noteq> []" by auto
  ultimately show ?thesis by simp
qed

lemma kebab_chars:
  assumes "re_match KEBAB_PATTERN s"
  shows "s \<noteq> [] \<and> is_lower_digit (hd s) \<and>
         list_all (\<lambda>c. is_lower_digit c \<or> c = CHR ''-'' \<or> c = CHR 0x0A) s"
proof -
  let ?seg = "Star (Seq (Cls [(CHR ''-'', CHR ''-'')]) (Plus cls_lower_digit))"
  from anchored_chars [OF assms [unfolded KEBAB_PATTERN_def]]
  have ne: "ends (Plus cls_lower_digit) (None, s) \<noteq> []"
    and all: "list_all (\<lambda>c. accepts (Plus cls_lower_digit) c \<or> accepts ?seg c \<or> c = CHR 0x0A) s"
    by simp_all
  from ne have "s \<noteq> [] \<and> is_lower_digit (hd s)"
    by (cases s) (auto simp: cls_lower_digit_def split: if_splits)
  moreover have "is_lower_digit c \<or> c = CHR ''-'' \<or> c = CHR 0x0A"
    if "accepts (Plus cls_lower_digit) c \<or> accepts ?seg c \<or> c = CHR 0x0A" for c
    using that by (auto simp: cls_lower_digit_def in_class_def in_range_single
        is_lower_digit_def is_lower_def is_digit_def)
  with all have "list_all (\<lambda>c. is_lower_digit c \<or> c = CHR ''-'' \<or> c = CHR 0x0A) s"
    unfolding list_all_iff by blast
  ultimately show ?thesis by simp
qed

lemma snake_chars:
  assumes "re_match SNAKE_PATTERN s"
  shows "s \<noteq> [] \<and> is_lower_digit (hd s) \<and>
         list_all (\<lambda>c. is_lower_digit c \<or> c = CHR ''_'' \<or> c = CHR 0x0A) s"
proof -
  let ?r2 = "Star (Cls [(CHR ''a'', CHR ''z''), (CHR ''0'', CHR ''9''), (CHR ''_'', CHR ''_'')])"
  from anchored_chars [OF assms [unfolded SNAKE_PATTERN_def]]
  have ne: "ends cls_lower (None, s) \<noteq> []"
    and all: "list_all (\<lambda>c. accepts cls_lower c \<or> accepts ?r2 c \<or> c = CHR 0x0A) s"
    by simp_all
  from ne have "s \<noteq> [] \<and> is_lower_digit (hd s)"
    by (cases s) (auto simp: cls_lower_def is_lower_digit_def split: if_splits)
  moreover have "is_lower_digit c \<or> c = CHR ''_'' \<or> c = CHR 0x0A"
    if "accepts cls_lower c \<or> accepts ?r2 c \<or> c = CHR 0x0A" for c
    using that by (auto simp: cls_lower_def in_class_def in_range_single
        is_lower_digit_def is_lower_def is_digit_def)
  with all have "list_all (\<lambda>c. is_lower_digit c \<or> c = CHR ''_'' \<or> c = CHR 0x0A) s"
    unfolding list_all_iff by blast
  ultimately show ?thesis by simp
qed

lemma newline_plain: "\<not> is_sep (CHR 0x0A) \<and> \<not> is_upper (CHR 0x0A)"
  by (simp add: sep_code upper_code)

section \<open>Tokenizing a name that is already in the style\<close>

lemma has_sep_iff: "CHR ''_'' \<in> set s \<or> CHR ''-'' \<in> set s \<longleftrightarrow> (\<exists>c \<in> set s. is_sep c)"
  by (auto simp: is_sep_def)

lemma extract_words_letter: "extract_words s = Inr ws \<Longrightarrow> has_letter s"
  by (auto simp: extract_words_def split: if_splits)

lemma extract_words_delimited:
  assumes "has_letter s" and "\<exists>c \<in> set (strip_seps s). is_sep c"
  shows "extract_words s = Inr (split_seps (lower (strip_seps s)))"
  using assms by (simp add: extract_words_def Let_def has_sep_iff split_seps_lower)

lemma extract_words_capitals:
  assumes "has_letter s" and "\<forall>c \<in> set (strip_seps s). \<not> is_sep c"
  shows "extract_words s =
           Inr (if findall WORD_PATTERN (strip_seps s) \<noteq> []
                then map lower (findall WORD_PATTERN (strip_seps s))
                else [lower (strip_seps s)])"
  using assms by (simp add: extract_words_def Let_def has_sep_iff)

lemma alnum_not_sep: "is_alnum c \<Longrightarrow> \<not> is_sep c"
  using sep_not_alnum by (auto simp: is_alnum_def)

lemma lower_digit_not_sep: "is_lower_digit c \<Longrightarrow> \<not> is_sep c"
  using sep_not_alnum by (auto simp: is_lower_digit_def)

lemma findall_single_word:
  assumes "s \<noteq> []" and "list_all is_lower_digit s"
  shows "findall WORD_PATTERN s = [s]"
proof -
  from assms obtain c cs where s: "s = c # cs" "is_lower_digit c" "list_all is_lower_digit cs"
    by (cases s) auto
  from s(3) have "takeWhile is_lower_digit cs = cs" "dropWhile is_lower_digit cs = []"
    by (simp_all add: list_all_iff)
  with findall_word_lower_digit [OF s(2), of None cs] s(1) show ?thesis
    by (auto simp: findall_def findall_word_nil)
qed

lemma separator_style_identity:
  assumes "is_sep x" and "s \<noteq> []" and "\<not> is_sep (hd s)" and "\<not> is_sep (last s)"
    and "list_all (\<lambda>c. is_lower_digit c \<or> c = x \<or> c = CHR 0x0A) s"
    and "(\<exists>c \<in> set s. is_sep c) \<or> list_all is_lower_digit s"
    and "extract_words s = Inr words"
  shows "join [x] words = s"
proof -
  from assms(7) have letter: "has_letter s" by (rule extract_words_letter)
  from assms(2-4) have strip: "strip_seps s = s" by (rule strip_seps_id)
  from assms(5) have "\<forall>c \<in> set s. \<not> is_upper c"
    using assms(1) sep_not_alnum lower_digit_not_upper newline_plain
    by (auto simp: list_all_iff)
  then have low: "lower s = s" by (rule lower_id)
  show ?thesis
  proof (cases "\<exists>c \<in> set s. is_sep c")
    case True
    with letter strip low assms(7) have "words = split_seps s"
      by (simp add: extract_words_delimited)
    moreover from assms(5) have "\<forall>c \<in> set s. is_sep c \<longrightarrow> c = x"
      using newline_plain by (auto simp: list_all_iff dest: lower_digit_not_sep)
    ultimately show ?thesis using assms(1) by (simp add: join_split_seps)
  next
    case False
    with assms(6) have "list_all is_lower_digit s" by blast
    with assms(2) have "findall WORD_PATTERN s = [s]" by (rule findall_single_word)
    with False letter strip low assms(7) have "words = [s]"
      by (simp add: extract_words_capitals)
    then show ?thesis by simp
  qed
qed

lemma camel_identity:
  assumes "is_lower c" and "list_all is_alnum cs" and "\<not> unsplit_capital (c # cs)"
    and "extract_words (c # cs) = Inr words"
  shows "\<exists>w ws. words = w # ws \<and> w @ concat (map capitalize ws) = c # cs"
proof -
  let ?s = "c # cs"
  from assms(4) have letter: "has_letter ?s" by (rule extract_words_letter)
  from assms(1,2) have alnum: "list_all is_alnum ?s" by (simp add: is_alnum_def)
  then have nosep: "\<forall>d \<in> set ?s. \<not> is_sep d"
    by (auto simp: list_all_iff dest: alnum_not_sep)
  then have strip: "strip_seps ?s = ?s" by (intro strip_seps_id) simp_all
  from assms(1) have ld: "is_lower_digit c" by (simp add: is_lower_digit_def)
  let ?r = "dropWhile is_lower_digit cs"
  from findall_word_lower_digit [OF ld, of None cs] obtain a' where
    f: "findall WORD_PATTERN ?s =
          (c # takeWhile is_lower_digit cs) # findall_from WORD_PATTERN (a', ?r)"
    unfolding findall_def by blast
  from assms(2) have r1: "list_all is_alnum ?r" by (rule list_all_dropWhile)
  from assms(3) have r2: "\<not> unsplit_capital ?r" by (rule unsplit_capital_rest)
  from assms(2) have r3: "?r = [] \<or> is_upper (hd ?r)" by (rule hd_dropWhile_alnum)
  from capital_words [OF r1 r2 r3, of a']
  have rest: "concat (map capitalize (map lower (findall_from WORD_PATTERN (a', ?r)))) = ?r"
    by (simp add: comp_def)
  have first: "lower (c # takeWhile is_lower_digit cs) = c # takeWhile is_lower_digit cs"
    using lower_run [of "c # cs"] ld by simp
  from letter strip nosep f assms(4)
  have "words = lower (c # takeWhile is_lower_digit cs)
                # map lower (findall_from WORD_PATTERN (a', ?r))"
    by (simp add: extract_words_capitals)
  with first rest show ?thesis by simp
qed

lemma pascal_identity:
  assumes "is_upper c" and "list_all is_alnum cs" and "\<not> unsplit_capital (c # cs)"
    and "extract_words (c # cs) = Inr words"
  shows "concat (map capitalize words) = c # cs"
proof -
  let ?s = "c # cs"
  from assms(4) have letter: "has_letter ?s" by (rule extract_words_letter)
  from assms(1,2) have alnum: "list_all is_alnum ?s" by (simp add: is_alnum_def)
  then have nosep: "\<forall>d \<in> set ?s. \<not> is_sep d"
    by (auto simp: list_all_iff dest: alnum_not_sep)
  then have strip: "strip_seps ?s = ?s" by (intro strip_seps_id) simp_all
  from capital_words [OF alnum assms(3), of None] assms(1)
  have all: "concat (map capitalize (map lower (findall WORD_PATTERN ?s))) = ?s"
    by (simp add: comp_def findall_def)
  then have "findall WORD_PATTERN ?s \<noteq> []" by auto
  with letter strip nosep assms(4)
  have "words = map lower (findall WORD_PATTERN ?s)"
    by (simp add: extract_words_capitals)
  with all show ?thesis by simp
qed

section \<open>Words of a tokenized name\<close>

lemma concat_split_seps: "concat (split_seps t) = filter (\<lambda>c. \<not> is_sep c) t"
proof (induction t)
  case Nil
  show ?case by simp
next
  case (Cons c cs)
  obtain w ws where ws: "split_seps cs = w # ws"
    using split_seps_nonempty [of cs] by (cases "split_seps cs") auto
  with Cons show ?case by auto
qed

lemma split_seps_chars:
  assumes "w \<in> set (split_seps t)" and "c \<in> set w"
  shows "c \<in> set t \<and> \<not> is_sep c"
proof -
  from assms have "c \<in> set (concat (split_seps t))" by auto
  then show ?thesis by (simp add: concat_split_seps)
qed

lemma length_split_seps: "length (split_seps t) = Suc (length (filter is_sep t))"
proof (induction t)
  case Nil
  show ?case by simp
next
  case (Cons c cs)
  obtain w ws where ws: "split_seps cs = w # ws"
    using split_seps_nonempty [of cs] by (cases "split_seps cs") auto
  with Cons show ?case by auto
qed

lemma hd_split_seps: "t \<noteq> [] \<Longrightarrow> \<not> is_sep (hd t) \<Longrightarrow> hd (split_seps t) \<noteq> []"
  by (cases t) (auto split: list.splits)

lemma last_split_seps: "t \<noteq> [] \<Longrightarrow> \<not> is_sep (last t) \<Longrightarrow> last (split_seps t) \<noteq> []"
proof (induction t)
  case Nil
  then show ?case by simp
next
  case (Cons c cs)
  obtain w ws where ws: "split_seps cs = w # ws"
    using split_seps_nonempty [of cs] by (cases "split_seps cs") auto
  show ?case
  proof (cases "cs = []")
    case True
    with Cons.prems show ?thesis by simp
  next
    case False
    with Cons have "last (split_seps cs) \<noteq> []" by simp
    with ws show ?thesis by (cases ws) auto
  qed
qed

lemma filter_dropWhile_not: "filter (\<lambda>c. \<not> P c) (dropWhile P xs) = filter (\<lambda>c. \<not> P c) xs"
  by (induction xs) simp_all

lemma filter_strip_seps:
  "filter (\<lambda>c. \<not> is_sep c) (strip_seps t) = filter (\<lambda>c. \<not> is_sep c) t"
proof -
  have "filter (\<lambda>c. \<not> is_sep c) (strip_seps t)
          = rev (filter (\<lambda>c. \<not> is_sep c) (dropWhile is_sep (rev (dropWhile is_sep t))))"
    by (simp add: strip_seps_def rev_filter)
  also have "\<dots> = rev (filter (\<lambda>c. \<not> is_sep c) (rev (dropWhile is_sep t)))"
    by (simp only: filter_dropWhile_not)
  also have "\<dots> = filter (\<lambda>c. \<not> is_sep c) (dropWhile is_sep t)"
    by (simp add: rev_filter)
  also have "\<dots> = filter (\<lambda>c. \<not> is_sep c) t"
    by (simp only: filter_dropWhile_not)
  finally show ?thesis .
qed

lemma letter_not_sep: "is_letter c \<Longrightarrow> \<not> is_sep c"
  using sep_not_alnum by (auto simp: is_letter_def)

lemma has_letter_filter: "has_letter (filter (\<lambda>c. \<not> is_sep c) t) \<longleftrightarrow> has_letter t"
  by (auto simp: has_letter_def list_ex_iff dest: letter_not_sep)

lemma has_letter_strip_seps: "has_letter (strip_seps t) \<longleftrightarrow> has_letter t"
  using has_letter_filter [of "strip_seps t"] has_letter_filter [of t]
  by (simp add: filter_strip_seps)

lemma last_dropWhile: "dropWhile P xs \<noteq> [] \<Longrightarrow> last (dropWhile P xs) = last xs"
  by (induction xs) (auto split: if_splits)

lemma strip_seps_ends:
  assumes "strip_seps t \<noteq> []"
  shows "\<not> is_sep (hd (strip_seps t)) \<and> \<not> is_sep (last (strip_seps t))"
proof -
  let ?u = "dropWhile is_sep t" and ?v = "dropWhile is_sep (rev (dropWhile is_sep t))"
  from assms have v: "?v \<noteq> []" by (simp add: strip_seps_def)
  have u: "?u \<noteq> []"
  proof
    assume "?u = []"
    then have "?v = []" by (simp only: rev.simps(1) dropWhile.simps(1))
    with v show False by simp
  qed
  have "last (strip_seps t) = hd ?v" using v by (simp add: strip_seps_def last_rev)
  moreover have "\<not> is_sep (hd ?v)" using v by (rule hd_dropWhile)
  moreover have "hd (strip_seps t) = last ?v" using v by (simp add: strip_seps_def hd_rev)
  moreover have "last ?v = last (rev ?u)" using v by (rule last_dropWhile)
  moreover have "last (rev ?u) = hd ?u" using u by (simp add: last_rev)
  moreover have "\<not> is_sep (hd ?u)" using u by (rule hd_dropWhile)
  ultimately show ?thesis by simp
qed

lemma not_upper_lower_char: "\<not> is_upper (lower_char c)"
  by (cases "is_upper c") (auto simp: lower_char_id dest: lower_char_lower lower_not_upper)

lemma lower_no_upper: "c \<in> set (lower t) \<Longrightarrow> \<not> is_upper c"
  by (auto simp: lower_def not_upper_lower_char)

lemma lower_eq_Nil: "lower t = [] \<longleftrightarrow> t = []"
  by (simp add: lower_def)

lemma hd_lower: "t \<noteq> [] \<Longrightarrow> hd (lower t) = lower_char (hd t)"
  by (simp add: lower_def hd_map)

lemma last_lower: "t \<noteq> [] \<Longrightarrow> last (lower t) = lower_char (last t)"
  by (simp add: lower_def last_map)

lemma sep_in_lower: "(\<exists>c \<in> set (lower t). is_sep c) \<longleftrightarrow> (\<exists>c \<in> set t. is_sep c)"
  by (auto simp: lower_def is_sep_lower_char)

section \<open>The words the capital-letter split finds\<close>

lemma findall_word_cases:
  obtains (nil) "snd p = []" "findall_from WORD_PATTERN p = []"
  | (skip) c cs where "snd p = c # cs" "ends WORD_PATTERN p = []"
      "findall_from WORD_PATTERN p = findall_from WORD_PATTERN (Some c, cs)"
  | (word) q w where "snd p = w @ snd q" "w \<noteq> []" "list_all is_alnum w"
      "ends WORD_PATTERN p \<noteq> []" "findall_from WORD_PATTERN p = w # findall_from WORD_PATTERN q"
proof (cases "ends WORD_PATTERN p")
  case Nil
  obtain a s where p: "p = (a, s)" by (cases p)
  show ?thesis
  proof (cases s)
    case Nil
    with p show ?thesis using nil by (simp add: findall_word_nil)
  next
    case (Cons c cs)
    with p \<open>ends WORD_PATTERN p = []\<close> show ?thesis
      using skip [of c cs] by (simp add: findall_from_skip)
  qed
next
  case (Cons q qs)
  then have q: "q \<in> set (ends WORD_PATTERN p)" by simp
  from ends_strict [OF word_pattern_not_nullable q]
  have len: "length (snd q) < length (snd p)" .
  from ends_consumed [OF q] obtain w where w: "snd p = w @ snd q"
    "list_all (accepts WORD_PATTERN) w"
    by (auto simp: consumed_def)
  from w(2) have alnum: "list_all is_alnum w"
    unfolding list_all_iff using accepts_word_pattern by blast
  from w(1) len have ne: "w \<noteq> []" by auto
  from w(1) have "take (length (snd p) - length (snd q)) (snd p) = w" by simp
  with findall_from_match [OF Cons len]
  have "findall_from WORD_PATTERN p = w # findall_from WORD_PATTERN q" by simp
  with w(1) ne alnum Cons show ?thesis using word [of w q] by simp
qed

lemma findall_tokens:
  "t \<in> set (findall_from WORD_PATTERN p) \<Longrightarrow> t \<noteq> [] \<and> list_all is_alnum t"
proof (induction "length (snd p)" arbitrary: p rule: less_induct)
  case less
  show ?case
  proof (cases p rule: findall_word_cases)
    case nil
    with less.prems show ?thesis by simp
  next
    case (skip c cs)
    with less.prems have "t \<in> set (findall_from WORD_PATTERN (Some c, cs))" by simp
    moreover from skip have "length (snd (Some c, cs)) < length (snd p)" by simp
    ultimately show ?thesis using less.hyps by blast
  next
    case (word q w)
    from word(1,2) have len: "length (snd q) < length (snd p)" by simp
    from less.prems word(5) have "t = w \<or> t \<in> set (findall_from WORD_PATTERN q)" by simp
    then show ?thesis
    proof
      assume "t = w"
      with word show ?thesis by simp
    next
      assume "t \<in> set (findall_from WORD_PATTERN q)"
      with len show ?thesis using less.hyps by blast
    qed
  qed
qed

lemma ends_word_letter:
  assumes "is_letter c" and "ends WORD_PATTERN (a, c # cs) = []" and "CHR ''_'' \<notin> set cs"
  shows "has_letter cs"
proof -
  have up: "is_upper c"
  proof (rule ccontr)
    assume "\<not> is_upper c"
    with assms(1) have "is_lower_digit c" by (simp add: is_letter_def is_lower_digit_def)
    from ends_word_lower_digit [OF this, of a cs] assms(2) show False by auto
  qed
  have "cs \<noteq> [] \<and> is_word_char (hd cs)"
  proof (rule ccontr)
    assume "\<not> (cs \<noteq> [] \<and> is_word_char (hd cs))"
    then have "cs = [] \<or> \<not> is_word_char (hd cs)" by blast
    from ends_word_upper_boundary [OF up this, of a] assms(2) show False by simp
  qed
  then obtain d ds where cs: "cs = d # ds" "is_word_char d" by (cases cs) auto
  have "\<not> is_lower_digit d"
  proof
    assume "is_lower_digit d"
    from ends_word_upper_lower_digit [OF up this, of a ds] assms(2) cs(1) show False by auto
  qed
  moreover from assms(3) cs(1) have "d \<noteq> CHR ''_''" by auto
  ultimately have "is_letter d"
    using cs(2) by (auto simp: is_word_char_def is_lower_digit_def is_letter_def)
  with cs(1) show ?thesis by (simp add: has_letter_def)
qed

lemma findall_has_letter:
  "has_letter (snd p) \<Longrightarrow> CHR ''_'' \<notin> set (snd p) \<Longrightarrow>
   \<exists>t \<in> set (findall_from WORD_PATTERN p). has_letter t"
proof (induction "length (snd p)" arbitrary: p rule: less_induct)
  case less
  show ?case
  proof (cases p rule: findall_word_cases)
    case nil
    with less.prems show ?thesis by (simp add: has_letter_def)
  next
    case (skip c cs)
    obtain a where p: "p = (a, c # cs)" using skip(1) by (cases p) auto
    have "has_letter cs"
    proof (cases "is_letter c")
      case True
      from skip(2) p less.prems(2) show ?thesis
        by (intro ends_word_letter [OF True, of a]) auto
    next
      case False
      with less.prems(1) skip(1) show ?thesis by (simp add: has_letter_def)
    qed
    moreover from less.prems(2) skip(1) have "CHR ''_'' \<notin> set cs" by auto
    moreover from skip(1) have "length (snd (Some c, cs)) < length (snd p)" by simp
    ultimately have "\<exists>t \<in> set (findall_from WORD_PATTERN (Some c, cs)). has_letter t"
      using less.hyps [of "(Some c, cs)"] by simp
    with skip(3) show ?thesis by simp
  next
    case (word q w)
    from word(1,2) have len: "length (snd q) < length (snd p)" by simp
    from less.prems(1) word(1) have "has_letter w \<or> has_letter (snd q)"
      by (auto simp: has_letter_def)
    then show ?thesis
    proof
      assume "has_letter w"
      with word(5) show ?thesis by simp
    next
      assume "has_letter (snd q)"
      moreover from less.prems(2) word(1) have "CHR ''_'' \<notin> set (snd q)" by auto
      ultimately have "\<exists>t \<in> set (findall_from WORD_PATTERN q). has_letter t"
        using less.hyps [OF len] by blast
      with word(5) show ?thesis by simp
    qed
  qed
qed

section \<open>Words that survive a separator\<close>

lemma join_chars: "c \<in> set (join sep ws) \<Longrightarrow> c \<in> set sep \<or> (\<exists>w \<in> set ws. c \<in> set w)"
  by (induction sep ws rule: join.induct) auto

lemma word_in_join: "w \<in> set ws \<Longrightarrow> c \<in> set w \<Longrightarrow> c \<in> set (join sep ws)"
  by (induction sep ws rule: join.induct) auto

lemma sep_in_join: "2 \<le> length ws \<Longrightarrow> c \<in> set sep \<Longrightarrow> c \<in> set (join sep ws)"
  by (induction sep ws rule: join.induct) auto

lemma hd_join: "ws \<noteq> [] \<Longrightarrow> hd ws \<noteq> [] \<Longrightarrow> join sep ws \<noteq> [] \<and> hd (join sep ws) = hd (hd ws)"
  by (induction sep ws rule: join.induct) auto

lemma last_join: "ws \<noteq> [] \<Longrightarrow> last ws \<noteq> [] \<Longrightarrow> last (join sep ws) = last (last ws)"
proof (induction sep ws rule: join.induct)
  case (3 sep w v va)
  from "3.prems" have n: "last (v # va) \<noteq> []" by simp
  then have "last (last (v # va)) \<in> set (last (v # va))" by simp
  moreover have "last (v # va) \<in> set (v # va)" by (rule last_in_set) simp
  ultimately have "last (last (v # va)) \<in> set (join sep (v # va))" by (rule word_in_join [rotated])
  then have "join sep (v # va) \<noteq> []" by auto
  with "3.IH" n show ?case by simp
qed simp_all

lemma alnum_lower_char: "is_alnum c \<Longrightarrow> is_lower_digit (lower_char c)"
  by (cases "is_upper c")
     (auto simp: lower_char_id is_alnum_def is_lower_digit_def dest: lower_char_lower)

lemma roundtrip_words:
  assumes x: "is_sep x"
    and ne: "words \<noteq> []"
    and chars: "\<forall>w \<in> set words. \<forall>c \<in> set w. \<not> is_sep c \<and> \<not> is_upper c"
    and ends: "hd words \<noteq> []" "last words \<noteq> []"
    and letter: "\<exists>w \<in> set words. has_letter w"
    and single: "length words = 1 \<longrightarrow> list_all is_lower_digit (hd words)"
  shows "extract_words (join [x] words) = Inr words"
proof -
  let ?s = "join [x] words"
  from letter obtain w c where "w \<in> set words" "c \<in> set w" "is_letter c"
    by (auto simp: has_letter_def list_ex_iff)
  then have hl: "has_letter ?s"
    using word_in_join [of w words c "[x]"] by (auto simp: has_letter_def list_ex_iff)
  from hd_join [OF ne ends(1), of "[x]"] have s: "?s \<noteq> []" "hd ?s = hd (hd words)" by simp_all
  from ne ends(1) have "hd (hd words) \<in> set (hd words)" "hd words \<in> set words" by simp_all
  with chars s(2) have h: "\<not> is_sep (hd ?s)" by auto
  from ne ends(2) have "last (last words) \<in> set (last words)" "last words \<in> set words"
    by simp_all
  with chars last_join [OF ne ends(2), of "[x]"] have l: "\<not> is_sep (last ?s)" by auto
  from s(1) h l have strip: "strip_seps ?s = ?s" by (rule strip_seps_id)
  have "\<forall>c \<in> set ?s. \<not> is_upper c"
  proof
    fix c assume "c \<in> set ?s"
    then have "c = x \<or> (\<exists>w \<in> set words. c \<in> set w)" using join_chars [of c "[x]" words] by simp
    with x chars show "\<not> is_upper c" using sep_not_alnum by blast
  qed
  then have low: "lower ?s = ?s" by (rule lower_id)
  show ?thesis
  proof (cases "length words = 1")
    case True
    then obtain w where w: "words = [w]" by (cases words) auto
    with single ends(1) have "w \<noteq> []" "list_all is_lower_digit w" by simp_all
    then have f: "findall WORD_PATTERN w = [w]" by (rule findall_single_word)
    from w have sw: "?s = w" by simp
    from chars w have "\<forall>c \<in> set w. \<not> is_sep c" by simp
    with strip sw have "\<forall>c \<in> set (strip_seps ?s). \<not> is_sep c" by simp
    from extract_words_capitals [OF hl this] have
      "extract_words ?s = Inr (if findall WORD_PATTERN ?s \<noteq> []
                               then map lower (findall WORD_PATTERN ?s) else [lower ?s])"
      by (simp only: strip)
    with f low sw w show ?thesis by simp
  next
    case False
    from ne have "length words \<noteq> 0" by simp
    with False have two: "2 \<le> length words" by arith
    then have "x \<in> set ?s" using sep_in_join [of words x "[x]"] by simp
    with x have "\<exists>c \<in> set (strip_seps ?s). is_sep c" by (auto simp: strip)
    from extract_words_delimited [OF hl this]
    have "extract_words ?s = Inr (split_seps ?s)" by (simp only: strip low)
    moreover from chars have "\<forall>w \<in> set words. \<forall>c \<in> set w. \<not> is_sep c" by blast
    from split_seps_join [OF x ne this] have "split_seps ?s = words" .
    ultimately show ?thesis by simp
  qed
qed

lemma delimited_words:
  assumes "has_letter name" and "\<exists>c \<in> set (strip_seps name). is_sep c"
    and "words = split_seps (lower (strip_seps name))"
  shows "words \<noteq> [] \<and> (\<forall>w \<in> set words. \<forall>c \<in> set w. \<not> is_sep c \<and> \<not> is_upper c) \<and>
         hd words \<noteq> [] \<and> last words \<noteq> [] \<and> (\<exists>w \<in> set words. has_letter w) \<and>
         length words \<noteq> 1"
proof -
  let ?n = "strip_seps name" and ?t = "lower (strip_seps name)"
  from assms(1) have ln: "has_letter ?n" by (simp add: has_letter_strip_seps)
  then have n: "?n \<noteq> []" by (auto simp: has_letter_def)
  from ln have lt: "has_letter ?t" by (simp add: has_letter_lower)
  from n have t: "?t \<noteq> []" by (simp add: lower_eq_Nil)
  from strip_seps_ends [OF n] n have e: "\<not> is_sep (hd ?t)" "\<not> is_sep (last ?t)"
    by (simp_all add: hd_lower last_lower is_sep_lower_char)
  have 1: "words \<noteq> []" by (simp add: assms(3) split_seps_nonempty)
  have 2: "\<forall>w \<in> set words. \<forall>c \<in> set w. \<not> is_sep c \<and> \<not> is_upper c"
    using split_seps_chars [of _ ?t] lower_no_upper [of _ ?n] unfolding assms(3) by blast
  have 3: "hd words \<noteq> []" "last words \<noteq> []"
    using t e by (simp_all add: assms(3) hd_split_seps last_split_seps)
  from lt obtain c where "c \<in> set ?t" "is_letter c" by (auto simp: has_letter_def list_ex_iff)
  then have "c \<in> set (concat (split_seps ?t))"
    by (simp add: concat_split_seps letter_not_sep)
  then have 4: "\<exists>w \<in> set words. has_letter w"
    using \<open>is_letter c\<close> by (auto simp: assms(3) has_letter_def list_ex_iff)
  from assms(2) have "\<exists>c \<in> set ?t. is_sep c" by (simp add: sep_in_lower)
  then have "filter is_sep ?t \<noteq> []" by (auto simp: filter_empty_conv)
  then have 5: "length words \<noteq> 1" by (simp add: assms(3) length_split_seps)
  from 1 2 3 4 5 show ?thesis by blast
qed

lemma capital_split_words:
  assumes "has_letter name" and "\<forall>c \<in> set (strip_seps name). \<not> is_sep c"
    and "extract_words name = Inr words"
  shows "words \<noteq> [] \<and> (\<forall>w \<in> set words. \<forall>c \<in> set w. \<not> is_sep c \<and> \<not> is_upper c) \<and>
         hd words \<noteq> [] \<and> last words \<noteq> [] \<and> (\<exists>w \<in> set words. has_letter w) \<and>
         list_all is_lower_digit (hd words)"
proof -
  let ?n = "strip_seps name"
  let ?ts = "findall WORD_PATTERN ?n"
  from assms(1) have ln: "has_letter (snd (None :: char option, ?n))"
    by (simp add: has_letter_strip_seps)
  from assms(2) have "CHR ''_'' \<notin> set (snd (None :: char option, ?n))"
    by (auto simp: is_sep_def)
  from findall_has_letter [OF ln this] obtain t where t: "t \<in> set ?ts" "has_letter t"
    by (auto simp: findall_def)
  then have ne: "?ts \<noteq> []" by auto
  with extract_words_capitals [OF assms(1,2)] assms(3) have w: "words = map lower ?ts" by simp
  have tok: "u \<noteq> [] \<and> list_all is_alnum u" if "u \<in> set ?ts" for u
    using that findall_tokens [of u "(None, ?n)"] by (simp add: findall_def)
  have wd: "v \<noteq> [] \<and> list_all is_lower_digit v" if "v \<in> set words" for v
  proof -
    from that w obtain u where u: "u \<in> set ?ts" "v = lower u" by auto
    with tok [of u] show ?thesis
      by (auto simp: lower_def list_all_iff alnum_lower_char)
  qed
  from ne w have 1: "words \<noteq> []" by simp
  then have "hd words \<in> set words" "last words \<in> set words" by simp_all
  with wd have 3: "hd words \<noteq> []" "last words \<noteq> []" "list_all is_lower_digit (hd words)"
    by blast+
  have 2: "\<forall>v \<in> set words. \<forall>c \<in> set v. \<not> is_sep c \<and> \<not> is_upper c"
    using wd by (auto simp: list_all_iff dest: lower_digit_not_sep lower_digit_not_upper)
  from t(1) w have "lower t \<in> set words" by simp
  moreover from t(2) have "has_letter (lower t)" by (simp add: has_letter_lower)
  ultimately have 4: "\<exists>v \<in> set words. has_letter v" by blast
  from 1 2 3 4 show ?thesis by blast
qed

lemma separator_roundtrip:
  assumes "extract_words name = Inr words" and "is_sep x"
  shows "extract_words (join [x] words) = Inr words"
proof -
  from assms(1) have letter: "has_letter name" by (rule extract_words_letter)
  show ?thesis
  proof (cases "\<exists>c \<in> set (strip_seps name). is_sep c")
    case True
    from extract_words_delimited [OF letter True] assms(1)
    have "words = split_seps (lower (strip_seps name))" by simp
    from delimited_words [OF letter True this]
    have d: "words \<noteq> []" "\<forall>w \<in> set words. \<forall>c \<in> set w. \<not> is_sep c \<and> \<not> is_upper c"
      "hd words \<noteq> []" "last words \<noteq> []" "\<exists>w \<in> set words. has_letter w"
      "length words \<noteq> 1"
      by blast+
    from d(6) have "length words = 1 \<longrightarrow> list_all is_lower_digit (hd words)" by simp
    then show ?thesis by (rule roundtrip_words [OF assms(2) d(1) d(2) d(3) d(4) d(5)])
  next
    case False
    then have "\<forall>c \<in> set (strip_seps name). \<not> is_sep c" by blast
    from capital_split_words [OF letter this assms(1)]
    have d: "words \<noteq> []" "\<forall>w \<in> set words. \<forall>c \<in> set w. \<not> is_sep c \<and> \<not> is_upper c"
      "hd words \<noteq> []" "last words \<noteq> []" "\<exists>w \<in> set words. has_letter w"
      "list_all is_lower_digit (hd words)"
      by blast+
    from d(6) have "length words = 1 \<longrightarrow> list_all is_lower_digit (hd words)" by simp
    then show ?thesis by (rule roundtrip_words [OF assms(2) d(1) d(2) d(3) d(4) d(5)])
  qed
qed

lemma words_have_letter:
  assumes "extract_words name = Inr words"
  shows "\<exists>w \<in> set words. has_letter w"
proof -
  from assms have letter: "has_letter name" by (rule extract_words_letter)
  show ?thesis
  proof (cases "\<exists>c \<in> set (strip_seps name). is_sep c")
    case True
    from extract_words_delimited [OF letter True] assms
    have "words = split_seps (lower (strip_seps name))" by simp
    from delimited_words [OF letter True this] show ?thesis by blast
  next
    case False
    then have "\<forall>c \<in> set (strip_seps name). \<not> is_sep c" by blast
    from capital_split_words [OF letter this assms] show ?thesis by blast
  qed
qed

section \<open>Tokenizing a name rendered with capitals\<close>

lemma upper_char_upper:
  assumes "is_lower c"
  shows "is_upper (upper_char c)"
proof -
  from assms have "97 \<le> (of_char c :: nat)" "(of_char c :: nat) \<le> 122"
    by (simp_all add: lower_code)
  then have "65 \<le> (of_char c :: nat) - 32 \<and> (of_char c :: nat) - 32 \<le> 90" by arith
  with assms show ?thesis by (simp add: upper_code upper_char_code)
qed

lemma lower_upper_char:
  assumes "is_lower c"
  shows "lower_char (upper_char c) = c"
proof (rule char_eq_code)
  from assms have "32 \<le> (of_char c :: nat)" by (simp add: lower_code)
  then have "(of_char c :: nat) - 32 + 32 = of_char c" by arith
  with assms show "(of_char (lower_char (upper_char c)) :: nat) = of_char c"
    by (simp add: lower_char_code upper_char_code upper_char_upper)
qed

lemma lower_digits_id: "list_all is_lower_digit t \<Longrightarrow> lower t = t"
  by (rule lower_id) (auto simp: list_all_iff dest: lower_digit_not_upper)

lemma capitalize_word:
  assumes "list_all is_lower_digit t"
  shows "capitalize (c # t) = upper_char c # t"
proof -
  from assms have "lower t = t" by (rule lower_digits_id)
  then show ?thesis by simp
qed

lemma capitalize_digit_word:
  assumes "\<not> is_lower c" and "list_all is_lower_digit t"
  shows "capitalize (c # t) = c # t"
  using assms(1) capitalize_word [OF assms(2), of c] by (simp add: upper_char_id)

lemma lower_capitalize:
  assumes "w \<noteq> []" and "list_all is_lower_digit w"
  shows "lower (capitalize w) = w"
proof -
  from assms obtain c t where w: "w = c # t" "is_lower_digit c" "list_all is_lower_digit t"
    by (cases w) auto
  from w(3) have t: "lower t = t" by (rule lower_digits_id)
  from assms(2) have ww: "lower w = w" by (rule lower_digits_id)
  show ?thesis
  proof (cases "is_lower c")
    case True
    have "lower (upper_char c # t) = lower_char (upper_char c) # lower t"
      by (simp add: lower_def)
    with True t w(1) capitalize_word [OF w(3), of c] show ?thesis
      by (simp add: lower_upper_char)
  next
    case False
    from capitalize_digit_word [OF False w(3)] w(1) have "capitalize w = w" by simp
    with ww show ?thesis by simp
  qed
qed

lemma unsplit_capital_append: "unsplit_capital ys \<Longrightarrow> unsplit_capital (xs @ ys)"
  by (induction xs) (simp_all add: unsplit_capital_Cons)

lemma run_then_rest:
  assumes "list_all P xs" and "ys = [] \<or> \<not> P (hd ys)"
  shows "takeWhile P (xs @ ys) = xs \<and> dropWhile P (xs @ ys) = ys"
proof -
  from assms(2) have "takeWhile P ys = [] \<and> dropWhile P ys = ys" by (cases ys) auto
  with assms(1) show ?thesis
    by (simp add: takeWhile_append2 dropWhile_append2 list_all_iff)
qed

lemma capitals_head:
  assumes "\<forall>w \<in> set ws. capital_word w"
  shows "concat (map capitalize ws) = [] \<or> is_upper (hd (concat (map capitalize ws)))"
proof (cases ws)
  case Nil
  then show ?thesis by simp
next
  case (Cons w rest)
  with assms obtain c t where "w = c # t" "is_lower c" "list_all is_lower_digit t"
    by (cases w) (auto simp: capital_word_def)
  with Cons capitalize_word [of t c] show ?thesis by (simp add: upper_char_upper)
qed

lemma capital_tokens:
  assumes "\<forall>w \<in> set ws. capital_word w"
    and "\<not> unsplit_capital (concat (map capitalize ws))"
  shows "findall_from WORD_PATTERN (a, concat (map capitalize ws)) = map capitalize ws"
  using assms
proof (induction ws arbitrary: a)
  case Nil
  show ?case by (simp add: findall_word_nil)
next
  case (Cons w rest)
  let ?R = "concat (map capitalize rest)"
  from Cons.prems(1) obtain c t where w: "w = c # t" "is_lower c" "list_all is_lower_digit t"
    by (cases w) (auto simp: capital_word_def)
  let ?C = "upper_char c"
  from w capitalize_word [of t c] have cap: "capitalize w = ?C # t" by simp
  from w(2) have C: "is_upper ?C" by (rule upper_char_upper)
  from Cons.prems(1) have rest: "\<forall>v \<in> set rest. capital_word v" by simp
  then have R: "?R = [] \<or> is_upper (hd ?R)" by (rule capitals_head)
  from Cons.prems(2) have nR: "\<not> unsplit_capital ?R"
    using unsplit_capital_append [of ?R "capitalize w"] by auto
  have ih: "findall_from WORD_PATTERN (b, ?R) = map capitalize rest" for b
    using Cons.IH [OF rest nR] .
  show ?case
  proof (cases t)
    case (Cons d ds)
    with w(3) have d: "is_lower_digit d" "list_all is_lower_digit ds" by simp_all
    from R have "?R = [] \<or> \<not> is_lower_digit (hd ?R)"
      by (auto dest: lower_digit_not_upper)
    from run_then_rest [OF d(2) this]
    have run: "takeWhile is_lower_digit (ds @ ?R) = ds" "dropWhile is_lower_digit (ds @ ?R) = ?R"
      by simp_all
    from findall_word_upper_lower_digit [OF C d(1), of a "ds @ ?R"] obtain a' where
      "findall_from WORD_PATTERN (a, ?C # d # ds @ ?R) =
         (?C # d # takeWhile is_lower_digit (ds @ ?R))
         # findall_from WORD_PATTERN (a', dropWhile is_lower_digit (ds @ ?R))"
      by blast
    with run ih [of a'] cap Cons show ?thesis by simp
  next
    case Nil
    show ?thesis
    proof (cases ?R)
      case Nil
      with \<open>t = []\<close> cap C ih [of "Some ?C"] show ?thesis
        by (simp add: findall_word_upper_boundary findall_word_nil)
    next
      case (Cons d ds)
      with R have d: "is_upper d" by simp
      from Cons.prems(2) cap \<open>t = []\<close> Cons C d have "ds \<noteq> [] \<and> is_lower (hd ds)"
        by auto
      then obtain e es where ds: "ds = e # es" "is_lower e" by (cases ds) auto
      from findall_word_upper_pair [OF C d ds(2), of a es]
      have "findall_from WORD_PATTERN (a, ?C # ?R) = [?C] # findall_from WORD_PATTERN (Some ?C, ?R)"
        using Cons ds(1) by simp
      with ih [of "Some ?C"] cap \<open>t = []\<close> show ?thesis by simp
    qed
  qed
qed

lemma leading_tokens:
  assumes "w \<noteq> []" and "list_all is_lower_digit w"
    and "\<forall>v \<in> set rest. capital_word v"
    and "\<not> unsplit_capital (w @ concat (map capitalize rest))"
  shows "findall_from WORD_PATTERN (a, w @ concat (map capitalize rest)) = w # map capitalize rest"
proof -
  let ?R = "concat (map capitalize rest)"
  from assms(1,2) obtain c t where w: "w = c # t" "is_lower_digit c" "list_all is_lower_digit t"
    by (cases w) auto
  from assms(3) have "?R = [] \<or> is_upper (hd ?R)" by (rule capitals_head)
  then have "?R = [] \<or> \<not> is_lower_digit (hd ?R)" by (auto dest: lower_digit_not_upper)
  from run_then_rest [OF w(3) this]
  have run: "takeWhile is_lower_digit (t @ ?R) = t" "dropWhile is_lower_digit (t @ ?R) = ?R"
    by simp_all
  from assms(4) have nR: "\<not> unsplit_capital ?R"
    using unsplit_capital_append [of ?R w] by auto
  from findall_word_lower_digit [OF w(2), of a "t @ ?R"] obtain a' where
    "findall_from WORD_PATTERN (a, c # t @ ?R) =
       (c # takeWhile is_lower_digit (t @ ?R))
       # findall_from WORD_PATTERN (a', dropWhile is_lower_digit (t @ ?R))"
    by blast
  with run capital_tokens [OF assms(3) nR, of a'] w(1) show ?thesis by simp
qed

lemma tokens_roundtrip:
  assumes "findall WORD_PATTERN s = ts" and "concat ts = s" and "ts \<noteq> []"
    and "map lower ts = words" and "\<exists>w \<in> set words. has_letter w"
  shows "extract_words s = Inr words"
proof -
  have tok: "t \<noteq> [] \<and> list_all is_alnum t" if "t \<in> set ts" for t
    using that findall_tokens [of t "(None, s)"] assms(1) by (simp add: findall_def)
  have alnum: "\<forall>c \<in> set s. is_alnum c"
  proof
    fix c assume "c \<in> set s"
    with assms(2) obtain t where "t \<in> set ts" "c \<in> set t" by auto
    with tok [of t] show "is_alnum c" by (simp add: list_all_iff)
  qed
  then have nosep: "\<forall>c \<in> set s. \<not> is_sep c" by (auto dest: alnum_not_sep)
  from assms(3) obtain t where t: "t \<in> set ts" by (cases ts) auto
  with tok [of t] assms(2) have ne: "s \<noteq> []" by auto
  then have "hd s \<in> set s" "last s \<in> set s" by simp_all
  with nosep have "\<not> is_sep (hd s)" "\<not> is_sep (last s)" by blast+
  with ne have strip: "strip_seps s = s" by (rule strip_seps_id)
  from assms(4,5) obtain u where u: "u \<in> set ts" "has_letter (lower u)" by auto
  then have "has_letter u" by (simp add: has_letter_lower)
  then obtain c where c: "c \<in> set u" "is_letter c" by (auto simp: has_letter_def list_ex_iff)
  with u(1) assms(2) have "c \<in> set s" by auto
  with c(2) have letter: "has_letter s" by (auto simp: has_letter_def list_ex_iff)
  from nosep strip have "\<forall>c \<in> set (strip_seps s). \<not> is_sep c" by simp
  from extract_words_capitals [OF letter this] assms(1,3,4) show ?thesis
    by (simp add: strip)
qed

lemma capital_roundtrip:
  assumes "words \<noteq> []"
    and "\<forall>w \<in> set words. w \<noteq> [] \<and> list_all is_lower_digit w"
    and "\<forall>w \<in> set (tl words). is_lower (hd w)"
    and "\<exists>w \<in> set words. has_letter w"
    and "style = ''camelCase'' \<or> style = ''PascalCase''"
    and "apply_case words style = Inr (Some rendered)"
    and "\<not> unsplit_capital rendered"
  shows "extract_words rendered = Inr words"
proof -
  from assms(1) obtain w rest where words: "words = w # rest" by (cases words) auto
  with assms(2) have w: "w \<noteq> []" "list_all is_lower_digit w" by simp_all
  from assms(2,3) words have rest: "\<forall>v \<in> set rest. capital_word v"
    by (simp add: capital_word_def)
  have again: "map lower (map capitalize vs) = vs"
    if "\<forall>v \<in> set vs. v \<noteq> [] \<and> list_all is_lower_digit v" for vs
    using that by (induction vs) (simp_all add: lower_capitalize)
  from assms(2) words have "\<forall>v \<in> set rest. v \<noteq> [] \<and> list_all is_lower_digit v" by simp
  then have rback: "map lower (map capitalize rest) = rest" by (rule again)
  from w(2) have wl: "lower w = w" by (rule lower_digits_id)
  let ?R = "concat (map capitalize rest)"
  have "\<exists>ts. findall WORD_PATTERN rendered = ts \<and> concat ts = rendered \<and> ts \<noteq> [] \<and>
              map lower ts = words"
  proof (cases "style = ''PascalCase'' \<and> is_lower (hd w)")
    case True
    with assms(6) have r: "rendered = concat (map capitalize words)"
      by (simp add: apply_case_def)
    from True w rest words have all: "\<forall>v \<in> set words. capital_word v"
      by (simp add: capital_word_def)
    from capital_tokens [OF all assms(7) [unfolded r], of None]
    have "findall WORD_PATTERN rendered = map capitalize words"
      by (simp add: findall_def r)
    moreover from assms(2) have "map lower (map capitalize words) = words" by (rule again)
    ultimately show ?thesis using r assms(1) by simp
  next
    case False
    have r: "rendered = w @ ?R"
    proof (cases "style = ''PascalCase''")
      case True
      with False have "\<not> is_lower (hd w)" by simp
      with w obtain c t where ct: "w = c # t" "\<not> is_lower c" "list_all is_lower_digit t"
        by (cases w) auto
      from capitalize_digit_word [OF ct(2,3)] ct(1) have "capitalize w = w" by simp
      with True assms(6) words show ?thesis by (simp add: apply_case_def)
    next
      case False
      with assms(5) have "style = ''camelCase''" by simp
      with assms(6) words show ?thesis by (simp add: apply_case_def)
    qed
    from leading_tokens [OF w rest assms(7) [unfolded r], of None]
    have "findall WORD_PATTERN rendered = w # map capitalize rest"
      by (simp add: findall_def r)
    with r wl rback words show ?thesis by simp
  qed
  then obtain ts where "findall WORD_PATTERN rendered = ts" "concat ts = rendered" "ts \<noteq> []"
    "map lower ts = words"
    by blast
  then show ?thesis using assms(4) by (rule tokens_roundtrip)
qed

section \<open>The checker\<close>

text \<open>
  C1, as the claim states it, fails for names without a letter: the tokenizer raises
  ValueError before any issue is returned. The empty name fails the kebab-case pattern, and
  \<open>check\<close> returns no issue list for it.
\<close>

theorem check_mismatch_issues_counterexample:
  "get_pattern no_overrides ''kebab-case'' = Some KEBAB_PATTERN \<and>
   \<not> re_match KEBAB_PATTERN [] \<and>
   check no_overrides [] ''kebab-case'' =
     Inl (ValueError (''Name must contain at least one letter: '' @ [CHR 0x27] @ [CHR 0x27]))"
  by code_simp

text \<open>
  C1, amended. For every name that contains at least one ASCII letter and every style with
  a known pattern, when the name fails the pattern, \<open>check\<close> returns the issue that the
  name does not match the style first. If \<open>extract_words\<close> yields more than 3 words, exactly
  one further issue follows, the request for a manual review, and nothing is rendered.
  Otherwise, for a style of the built-in set, \<open>convert_case\<close> renders the extracted words,
  and the issue \<open>Suggested: '<value>'\<close> follows if and only if the rendered value differs
  from the name.
\<close>

theorem check_mismatch_issues:
  assumes "get_pattern self case_name = Some pattern"
    and "\<not> re_match pattern name"
    and "has_letter name"
  shows "\<exists>words.
           extract_words name = Inr words \<and>
           (\<exists>more. check self name case_name = Inr ((''Does not match '' @ case_name) # more)) \<and>
           (length words > 3 \<longrightarrow>
              check self name case_name =
                Inr [''Does not match '' @ case_name,
                     ''Too many segments (>3) - needs manual review'']) \<and>
           (length words \<le> 3 \<and> case_name \<in> set CASE_STYLES \<longrightarrow>
              (\<exists>rendered.
                 convert_case (Inr words) case_name = Inr (Some rendered) \<and>
                 check self name case_name =
                   Inr ((''Does not match '' @ case_name) #
                        (if rendered \<noteq> name
                         then [''Suggested: '' @ [CHR 0x27] @ rendered @ [CHR 0x27]]
                         else []))))"
proof -
  from assms(3) have "\<exists>words. extract_words name = Inr words"
    by (simp add: extract_words_def Let_def)
  then obtain words where w: "extract_words name = Inr words" by blast
  then have ne: "words \<noteq> []" by (rule extract_words_nonempty)
  show ?thesis
  proof (cases "length words > 3")
    case True
    with assms(1,2) w show ?thesis by (simp add: check_def)
  next
    case False
    from ne obtain v where v: "apply_case words case_name = Inr v"
      using apply_case_nonempty by blast
    with False have c: "convert_case (Inr words) case_name = Inr v"
      by (simp add: convert_case_short)
    with assms(1,2) w False
    have first: "\<exists>more. check self name case_name = Inr ((''Does not match '' @ case_name) # more)"
      by (simp add: check_def)
    have "\<exists>rendered.
            convert_case (Inr words) case_name = Inr (Some rendered) \<and>
            check self name case_name =
              Inr ((''Does not match '' @ case_name) #
                   (if rendered \<noteq> name
                    then [''Suggested: '' @ [CHR 0x27] @ rendered @ [CHR 0x27]]
                    else []))"
      if "case_name \<in> set CASE_STYLES"
    proof -
      from ne that obtain r where "apply_case words case_name = Inr (Some r)"
        using apply_case_builtin by blast
      with v c have "convert_case (Inr words) case_name = Inr (Some r)" by simp
      with assms(1,2) w False show ?thesis by (simp add: check_def format_str_def)
    qed
    with w first False show ?thesis by simp
  qed
qed

theorem check_mismatch_issues_witness:
  "get_pattern no_overrides ''kebab-case'' = Some KEBAB_PATTERN \<and>
   \<not> re_match KEBAB_PATTERN ''MyRepoName'' \<and>
   has_letter ''MyRepoName'' \<and>
   extract_words ''MyRepoName'' = Inr [''my'', ''repo'', ''name''] \<and>
   convert_case (Inr [''my'', ''repo'', ''name'']) ''kebab-case'' = Inr (Some ''my-repo-name'') \<and>
   check no_overrides ''MyRepoName'' ''kebab-case'' =
     Inr [''Does not match kebab-case'',
          ''Suggested: '' @ [CHR 0x27] @ ''my-repo-name'' @ [CHR 0x27]]"
proof -
  have h1: "get_pattern no_overrides ''kebab-case'' = Some KEBAB_PATTERN" by code_simp
  have h2: "\<not> re_match KEBAB_PATTERN ''MyRepoName''" by code_simp
  have h3: "has_letter ''MyRepoName''" by code_simp
  have h4: "extract_words ''MyRepoName'' = Inr [''my'', ''repo'', ''name'']" by code_simp
  have h5: "convert_case (Inr [''my'', ''repo'', ''name'']) ''kebab-case''
              = Inr (Some ''my-repo-name'')"
    by code_simp
  have h6: "''kebab-case'' \<in> set CASE_STYLES" by (simp add: CASE_STYLES_def)
  from check_mismatch_issues [OF h1 h2 h3] h4 h5 h6 have
    "check no_overrides ''MyRepoName'' ''kebab-case'' =
     Inr [''Does not match kebab-case'',
          ''Suggested: '' @ [CHR 0x27] @ ''my-repo-name'' @ [CHR 0x27]]"
    by auto
  with h1 h2 h3 h4 h5 show ?thesis by blast
qed

text \<open>
  C2, as the claim states it, fails: \<open>check\<close> tests the name with \<open>re.match\<close>, which
  accepts a match of a proper prefix. With the override pattern \<open>[a-z]+\<close> for kebab-case the
  name \<open>ab1\<close> is reported conformant although the pattern does not match all of it; and
  the \<open>$\<close> of the built-in patterns accepts a name followed by one newline.
\<close>

theorem check_whole_string_counterexample:
  "get_pattern prefix_override ''kebab-case'' = Some (Plus cls_lower) \<and>
   \<not> re_fullmatch (Plus cls_lower) ''ab1'' \<and>
   check prefix_override ''ab1'' ''kebab-case'' = Inr [] \<and>
   get_pattern no_overrides ''kebab-case'' = Some KEBAB_PATTERN \<and>
   \<not> re_fullmatch KEBAB_PATTERN (''abc'' @ [CHR 0x0A]) \<and>
   check no_overrides (''abc'' @ [CHR 0x0A]) ''kebab-case'' = Inr []"
  by code_simp

text \<open>
  C2, amended. For every name and every style with a known pattern, \<open>check\<close> returns the
  empty list if and only if \<open>re.match\<close> succeeds, that is, the pattern matches some prefix
  of the name. The match covers the whole name only as far as the pattern's own anchors
  enforce it.
\<close>

theorem check_empty_iff_match:
  assumes "get_pattern self case_name = Some pattern"
  shows "check self name case_name = Inr [] \<longleftrightarrow> re_match pattern name"
  using assms
  by (auto simp: check_def split: sum.splits if_splits)

theorem check_empty_iff_match_witness:
  "get_pattern no_overrides ''kebab-case'' = Some KEBAB_PATTERN \<and>
   re_match KEBAB_PATTERN ''openaec-tools'' \<and>
   check no_overrides ''openaec-tools'' ''kebab-case'' = Inr []"
proof -
  have h1: "get_pattern no_overrides ''kebab-case'' = Some KEBAB_PATTERN" by code_simp
  have h2: "re_match KEBAB_PATTERN ''openaec-tools''" by code_simp
  from check_empty_iff_match [OF h1, of "''openaec-tools''"] h2
  have "check no_overrides ''openaec-tools'' ''kebab-case'' = Inr []" by simp
  with h1 h2 show ?thesis by blast
qed

text \<open>
  C10, as the claim states it, fails at one of its own examples: \<open>1234\<close> has no letter but
  matches the built-in kebab-case pattern, whose segments admit digits, so \<open>check\<close> returns
  the empty list and the tokenizer is never called.
\<close>

theorem check_no_letter_counterexample:
  "\<not> has_letter ''1234'' \<and> check no_overrides ''1234'' ''kebab-case'' = Inr []"
  by code_simp

text \<open>
  C10, amended. For every style with a known pattern and every name that contains no ASCII
  letter and fails the pattern (for example the empty name under kebab-case, or \<open>1234\<close>
  under camelCase), \<open>check\<close> returns no issue list: the ValueError the tokenizer raises for
  the name propagates.
\<close>

theorem check_no_letter_raises:
  assumes "get_pattern self case_name = Some pattern"
    and "\<not> re_match pattern name"
    and "\<not> has_letter name"
  shows "check self name case_name =
           Inl (ValueError (''Name must contain at least one letter: ''
                            @ [CHR 0x27] @ name @ [CHR 0x27]))"
  using assms by (simp add: check_def extract_words_def)

theorem check_no_letter_raises_witness:
  "get_pattern no_overrides ''camelCase'' = Some CAMEL_PATTERN \<and>
   \<not> re_match CAMEL_PATTERN ''1234'' \<and> \<not> has_letter ''1234'' \<and>
   check no_overrides ''1234'' ''camelCase'' =
     Inl (ValueError (''Name must contain at least one letter: ''
                      @ [CHR 0x27] @ ''1234'' @ [CHR 0x27]))"
proof -
  have h1: "get_pattern no_overrides ''camelCase'' = Some CAMEL_PATTERN" by code_simp
  have h2: "\<not> re_match CAMEL_PATTERN ''1234''" by code_simp
  have h3: "\<not> has_letter ''1234''" by code_simp
  from check_no_letter_raises [OF h1 h2 h3] h1 h2 h3 show ?thesis by blast
qed

section \<open>The renderer\<close>

text \<open>
  On a sequence of more than 3 words that all have a first character, \<open>convert_case\<close>
  replaces the sequence by the single word made of the first characters in order and applies
  the rule of the style to that one-word sequence: the word itself for kebab-case,
  snake_case and camelCase, the capitalized word for PascalCase.
\<close>

lemma convert_case_initials:
  assumes "length words > 3"
    and "\<forall>w \<in> set words. w \<noteq> []"
    and "style \<in> set CASE_STYLES"
  shows "convert_case (Inr words) style = apply_case [map hd words] style \<and>
         apply_case [map hd words] style =
           Inr (Some (if style = ''PascalCase'' then capitalize (map hd words)
                      else map hd words))"
  using assms
  by (auto simp: convert_case_def merge_initials_ok apply_case_def CASE_STYLES_def)

text \<open>
  C3. The collapse should work for every sequence of more than 3 words. The code reads
  \<open>w[0]\<close> of every word without a guard, and the tokenizer itself produces sequences with
  an empty word: on the four words that \<open>extract_words\<close> returns for \<open>a--b-c\<close> the merge
  raises IndexError instead of returning the rendered initialism.
\<close>

theorem convert_case_collapse_index_error:
  "3 < length [''a'', [], ''b'', ''c''] \<and>
   ''kebab-case'' \<in> set CASE_STYLES \<and>
   extract_words ''a--b-c'' = Inr [''a'', [], ''b'', ''c''] \<and>
   convert_case (Inr [''a'', [], ''b'', ''c'']) ''kebab-case'' = Inl IndexError"
  by code_simp

text \<open>
  C4, as the claim states it, fails: the four words collapse to the single word \<open>opst\<close>,
  and joining a one-word sequence inserts no separator.
\<close>

theorem convert_case_four_words_counterexample:
  "convert_case (Inr [''open'', ''pdf'', ''studio'', ''tool'']) ''kebab-case''
     \<noteq> Inr (Some ''o-p-s-t'')"
  by code_simp

text \<open>
  C4, amended. For the 4-word sequence open, pdf, studio, tool rendering in kebab-case
  yields the initialism of length 4 as one word, the string \<open>opst\<close>; no separator appears
  between the initials.
\<close>

theorem convert_case_four_words:
  "convert_case (Inr [''open'', ''pdf'', ''studio'', ''tool'']) ''kebab-case''
     = Inr (Some ''opst'')"
  by code_simp

text \<open>
  C5. A direct call with a style outside the supported set should fail with an error that
  names the style. The \<open>if\<close>/\<open>elif\<close> chain of \<open>convert_case\<close> has no final branch: the
  call runs past it and returns Python's \<open>None\<close>, from \<open>convert_case\<close> and from
  \<open>get_suggested_name\<close>, although both are declared to return a string.
\<close>

theorem convert_case_unknown_style_returns_none:
  "''Title Case'' \<notin> set CASE_STYLES \<and>
   convert_case (Inr [''my'', ''repo'']) ''Title Case'' = Inr None \<and>
   get_suggested_name no_overrides ''my-repo'' ''Title Case'' = Inr None"
  by code_simp

section \<open>Adjacent separators\<close>

text \<open>
  C6. The delimiter path is meant to split on runs of separators and to return non-empty
  segments. The code splits at every single separator instead: the two hyphens of
  \<open>a--b\<close> enclose an empty segment.
\<close>

theorem extract_words_adjacent_separators:
  "has_letter ''a--b'' \<and> extract_words ''a--b'' = Inr [''a'', [], ''b'']"
  by code_simp

text \<open>
  C9. A name with a letter and a supported style should always yield a string. The name
  \<open>a--b-c\<close> is split into four segments, one of them empty, and the merge of the initials
  reads the first character of the empty segment: IndexError.
\<close>

theorem get_suggested_name_index_error:
  "has_letter ''a--b-c'' \<and> ''kebab-case'' \<in> set CASE_STYLES \<and>
   extract_words ''a--b-c'' = Inr [''a'', [], ''b'', ''c''] \<and>
   get_suggested_name no_overrides ''a--b-c'' ''kebab-case'' = Inl IndexError"
  by code_simp

section \<open>Rendering the words of a conformant name\<close>

text \<open>
  C7, as the claim states it, fails in every style. A run of capitals is one word, rendered
  with only its first letter in upper case (PascalCase \<open>ABC\<close>, camelCase \<open>aBC\<close>); the
  snake_case pattern accepts a trailing underscore, which the tokenizer strips (\<open>a_\<close>);
  and the \<open>$\<close> of the built-in patterns accepts a final newline, which the capital-letter
  split drops (kebab-case \<open>abc\n\<close>).
\<close>

theorem render_tokenize_identity_counterexample:
  "re_match PASCAL_PATTERN ''ABC'' \<and>
   extract_words ''ABC'' = Inr [''abc''] \<and>
   convert_case (Inr [''abc'']) ''PascalCase'' = Inr (Some ''Abc'') \<and>
   re_match CAMEL_PATTERN ''aBC'' \<and>
   extract_words ''aBC'' = Inr [''a'', ''bc''] \<and>
   convert_case (Inr [''a'', ''bc'']) ''camelCase'' = Inr (Some ''aBc'') \<and>
   re_match SNAKE_PATTERN ''a_'' \<and>
   extract_words ''a_'' = Inr [''a''] \<and>
   convert_case (Inr [''a'']) ''snake_case'' = Inr (Some ''a'') \<and>
   re_match KEBAB_PATTERN (''abc'' @ [CHR 0x0A]) \<and>
   extract_words (''abc'' @ [CHR 0x0A]) = Inr [''abc''] \<and>
   convert_case (Inr [''abc'']) ''kebab-case'' = Inr (Some ''abc'')"
  by code_simp

text \<open>
  C7, amended. For every style in the built-in set and every name that validates against
  that style's built-in pattern and is split by the tokenizer into at most 3 words,
  \<open>convert_case(extract_words(name), style)\<close> equals the name, provided that
  \<^item> a name that ends in a newline is in kebab-case or snake_case and contains a separator,
  \<^item> a snake_case name does not end in an underscore, and
  \<^item> in a camelCase or PascalCase name no uppercase letter both follows an uppercase letter
    and is not followed by a lowercase letter.
\<close>

theorem render_tokenize_identity:
  assumes "CASE_PATTERNS style = Some pattern"
    and "re_match pattern name"
    and "extract_words name = Inr words"
    and "length words \<le> 3"
    and "ends_with (CHR 0x0A) name \<longrightarrow>
           (style = ''kebab-case'' \<or> style = ''snake_case'') \<and> (\<exists>c \<in> set name. is_sep c)"
    and "style = ''snake_case'' \<longrightarrow> \<not> ends_with CHR ''_'' name"
    and "style = ''camelCase'' \<or> style = ''PascalCase'' \<longrightarrow> \<not> unsplit_capital name"
  shows "convert_case (Inr words) style = Inr (Some name)"
proof -
  from assms(4) have conv: "convert_case (Inr words) style = apply_case words style"
    by (rule convert_case_short)
  from assms(1) consider
      (kebab) "style = ''kebab-case''" "pattern = KEBAB_PATTERN"
    | (snake) "style = ''snake_case''" "pattern = SNAKE_PATTERN"
    | (camel) "style = ''camelCase''" "pattern = CAMEL_PATTERN"
    | (pascal) "style = ''PascalCase''" "pattern = PASCAL_PATTERN"
    by (auto simp: CASE_PATTERNS_def split: if_splits)
  then show ?thesis
  proof cases
    case kebab
    have x: "is_sep CHR ''-''" by (simp add: is_sep_def)
    from kebab_chars [OF assms(2) [unfolded kebab(2)]]
    have ch: "name \<noteq> []" "is_lower_digit (hd name)"
      "list_all (\<lambda>c. is_lower_digit c \<or> c = CHR ''-'' \<or> c = CHR 0x0A) name"
      by simp_all
    from ch(2) have h: "\<not> is_sep (hd name)" by (rule lower_digit_not_sep)
    have "\<not> is_sep (last name) \<and> ((\<exists>c \<in> set name. is_sep c) \<or> list_all is_lower_digit name)"
    proof (cases "ends_with (CHR 0x0A) name")
      case True
      with assms(5) have "\<exists>c \<in> set name. is_sep c" by simp
      moreover from True have "\<not> is_sep (last name)"
        using newline_plain by (simp add: ends_with_def)
      ultimately show ?thesis by simp
    next
      case False
      from kebab_shape [OF assms(2) [unfolded kebab(2)] False]
      have "is_lower_digit (last name)" "list_all (\<lambda>c. is_lower_digit c \<or> c = CHR ''-'') name"
        by simp_all
      then show ?thesis using x by (auto simp: list_all_iff dest: lower_digit_not_sep)
    qed
    then have l: "\<not> is_sep (last name)"
      and d: "(\<exists>c \<in> set name. is_sep c) \<or> list_all is_lower_digit name"
      by simp_all
    have "join [CHR ''-''] words = name"
      by (rule separator_style_identity [OF x ch(1) h l ch(3) d assms(3)])
    with conv kebab(1) show ?thesis by (simp add: apply_case_def)
  next
    case snake
    have x: "is_sep CHR ''_''" by (simp add: is_sep_def)
    from snake_chars [OF assms(2) [unfolded snake(2)]]
    have ch: "name \<noteq> []" "is_lower_digit (hd name)"
      "list_all (\<lambda>c. is_lower_digit c \<or> c = CHR ''_'' \<or> c = CHR 0x0A) name"
      by simp_all
    from ch(2) have h: "\<not> is_sep (hd name)" by (rule lower_digit_not_sep)
    from ch(1) have "last name \<in> set name" by simp
    with ch(3) have "is_lower_digit (last name) \<or> last name = CHR ''_'' \<or> last name = CHR 0x0A"
      unfolding list_all_iff by blast
    moreover from assms(6) snake(1) ch(1) have "last name \<noteq> CHR ''_''"
      by (simp add: ends_with_def)
    ultimately have l: "\<not> is_sep (last name)"
      using newline_plain by (auto dest: lower_digit_not_sep)
    have d: "(\<exists>c \<in> set name. is_sep c) \<or> list_all is_lower_digit name"
    proof (cases "ends_with (CHR 0x0A) name")
      case True
      with assms(5) show ?thesis by simp
    next
      case False
      from snake_shape [OF assms(2) [unfolded snake(2)] False]
      obtain c cs where "name = c # cs" "is_lower c"
        "list_all (\<lambda>c. is_lower_digit c \<or> c = CHR ''_'') cs"
        by blast
      then have "list_all (\<lambda>c. is_lower_digit c \<or> c = CHR ''_'') name"
        by (simp add: is_lower_digit_def)
      then show ?thesis using x by (auto simp: list_all_iff)
    qed
    have "join [CHR ''_''] words = name"
      by (rule separator_style_identity [OF x ch(1) h l ch(3) d assms(3)])
    with conv snake(1) show ?thesis by (simp add: apply_case_def)
  next
    case camel
    with assms(5) have nl: "\<not> ends_with (CHR 0x0A) name" by auto
    from camel_shape [OF assms(2) [unfolded camel(2)] nl]
    obtain c cs where sh: "name = c # cs" "is_lower c" "list_all is_alnum cs" by blast
    from assms(7) camel(1) sh(1) have "\<not> unsplit_capital (c # cs)" by simp
    from camel_identity [OF sh(2,3) this assms(3) [unfolded sh(1)]]
    obtain w ws where "words = w # ws" "w @ concat (map capitalize ws) = c # cs" by blast
    with conv camel(1) sh(1) show ?thesis by (simp add: apply_case_def)
  next
    case pascal
    with assms(5) have nl: "\<not> ends_with (CHR 0x0A) name" by auto
    from pascal_shape [OF assms(2) [unfolded pascal(2)] nl]
    obtain c cs where sh: "name = c # cs" "is_upper c" "list_all is_alnum cs" by blast
    from assms(7) pascal(1) sh(1) have "\<not> unsplit_capital (c # cs)" by simp
    from pascal_identity [OF sh(2,3) this assms(3) [unfolded sh(1)]]
    have "concat (map capitalize words) = c # cs" .
    with conv pascal(1) sh(1) show ?thesis by (simp add: apply_case_def)
  qed
qed

theorem render_tokenize_identity_witness:
  "CASE_PATTERNS ''camelCase'' = Some CAMEL_PATTERN \<and>
   re_match CAMEL_PATTERN ''getAName'' \<and>
   extract_words ''getAName'' = Inr [''get'', ''a'', ''name''] \<and>
   length [''get'', ''a'', ''name''] \<le> 3 \<and>
   \<not> ends_with (CHR 0x0A) ''getAName'' \<and>
   \<not> unsplit_capital ''getAName'' \<and>
   convert_case (Inr [''get'', ''a'', ''name'']) ''camelCase'' = Inr (Some ''getAName'')"
proof -
  have h1: "CASE_PATTERNS ''camelCase'' = Some CAMEL_PATTERN" by code_simp
  have h2: "re_match CAMEL_PATTERN ''getAName''" by code_simp
  have h3: "extract_words ''getAName'' = Inr [''get'', ''a'', ''name'']" by code_simp
  have h4: "length [''get'', ''a'', ''name''] \<le> 3" by simp
  have n5: "\<not> ends_with (CHR 0x0A) ''getAName''" by code_simp
  then have h5: "ends_with (CHR 0x0A) ''getAName'' \<longrightarrow>
      (''camelCase'' = ''kebab-case'' \<or> ''camelCase'' = ''snake_case'') \<and>
      (\<exists>c \<in> set ''getAName''. is_sep c)"
    by simp
  have h6: "''camelCase'' = ''snake_case'' \<longrightarrow> \<not> ends_with CHR ''_'' ''getAName''" by simp
  have n7: "\<not> unsplit_capital ''getAName''" by code_simp
  then have h7: "''camelCase'' = ''camelCase'' \<or> ''camelCase'' = ''PascalCase''
                   \<longrightarrow> \<not> unsplit_capital ''getAName''"
    by simp
  from render_tokenize_identity [OF h1 h2 h3 h4 h5 h6 h7] h1 h2 h3 h4 n5 n7
  show ?thesis by blast
qed

section \<open>Tokenizing the rendered name again\<close>

text \<open>
  C8, as the claim states it, fails for the styles written with capitals. A one-letter word
  merges with the word after it (\<open>aB\<close> in PascalCase is rendered \<open>AB\<close>, one word), and a
  word that starts with a digit merges with the word before it (\<open>a-1\<close> in camelCase is
  rendered \<open>a1\<close>, one word).
\<close>

theorem tokenize_render_roundtrip_counterexample:
  "has_letter ''aB'' \<and>
   extract_words ''aB'' = Inr [''a'', ''b''] \<and>
   convert_case (Inr [''a'', ''b'']) ''PascalCase'' = Inr (Some ''AB'') \<and>
   extract_words ''AB'' = Inr [''ab''] \<and>
   has_letter ''a-1'' \<and>
   extract_words ''a-1'' = Inr [''a'', ''1''] \<and>
   convert_case (Inr [''a'', ''1'']) ''camelCase'' = Inr (Some ''a1'') \<and>
   extract_words ''a1'' = Inr [''a1'']"
  by code_simp

text \<open>
  C8, amended. For every ASCII name that contains at least one letter and whose
  tokenization yields at most 3 words, and for every style in the built-in set, rendering the
  words in the style and tokenizing the result yields the same words again, provided that
  for camelCase and PascalCase
  \<^item> every word is a non-empty string of lowercase letters and digits,
  \<^item> every word after the first starts with a letter, and
  \<^item> in the rendered name no uppercase letter both follows an uppercase letter and is not
    followed by a lowercase letter.
  For kebab-case and snake_case nothing more is required.
\<close>

theorem tokenize_render_roundtrip:
  assumes "ascii name"
    and "extract_words name = Inr words"
    and "length words \<le> 3"
    and "style \<in> set CASE_STYLES"
    and "style = ''camelCase'' \<or> style = ''PascalCase'' \<longrightarrow>
           (\<forall>w \<in> set words. w \<noteq> [] \<and> list_all is_lower_digit w) \<and>
           (\<forall>w \<in> set (tl words). is_lower (hd w)) \<and>
           (\<forall>rendered. convert_case (Inr words) style = Inr (Some rendered)
                        \<longrightarrow> \<not> unsplit_capital rendered)"
  shows "\<exists>rendered. convert_case (Inr words) style = Inr (Some rendered) \<and>
                    extract_words rendered = Inr words"
proof -
  from assms(3) have conv: "convert_case (Inr words) style = apply_case words style"
    by (rule convert_case_short)
  from assms(2) have ne: "words \<noteq> []" by (rule extract_words_nonempty)
  from ne assms(4) obtain rendered where r: "apply_case words style = Inr (Some rendered)"
    using apply_case_builtin by blast
  have "extract_words rendered = Inr words"
  proof (cases "style = ''camelCase'' \<or> style = ''PascalCase''")
    case True
    with assms(5) conv r have c: "\<forall>w \<in> set words. w \<noteq> [] \<and> list_all is_lower_digit w"
      "\<forall>w \<in> set (tl words). is_lower (hd w)" "\<not> unsplit_capital rendered"
      by simp_all
    from assms(2) have "\<exists>w \<in> set words. has_letter w" by (rule words_have_letter)
    from capital_roundtrip [OF ne c(1) c(2) this True r c(3)] show ?thesis .
  next
    case False
    with assms(4) have "style = ''kebab-case'' \<or> style = ''snake_case''"
      by (simp add: CASE_STYLES_def)
    then have "\<exists>x. is_sep x \<and> rendered = join [x] words"
    proof
      assume "style = ''kebab-case''"
      with r have "rendered = join [CHR ''-''] words" by (simp add: apply_case_def)
      moreover have "is_sep CHR ''-''" by (simp add: is_sep_def)
      ultimately show ?thesis by blast
    next
      assume "style = ''snake_case''"
      with r have "rendered = join [CHR ''_''] words" by (simp add: apply_case_def)
      moreover have "is_sep CHR ''_''" by (simp add: is_sep_def)
      ultimately show ?thesis by blast
    qed
    then obtain x where x: "is_sep x" "rendered = join [x] words" by blast
    from separator_roundtrip [OF assms(2) x(1)] x(2) show ?thesis by simp
  qed
  with conv r show ?thesis by simp
qed

theorem tokenize_render_roundtrip_witness:
  "ascii ''my-repo-name'' \<and>
   extract_words ''my-repo-name'' = Inr [''my'', ''repo'', ''name''] \<and>
   length [''my'', ''repo'', ''name''] \<le> 3 \<and>
   ''camelCase'' \<in> set CASE_STYLES \<and>
   convert_case (Inr [''my'', ''repo'', ''name'']) ''camelCase'' = Inr (Some ''myRepoName'') \<and>
   \<not> unsplit_capital ''myRepoName'' \<and>
   extract_words ''myRepoName'' = Inr [''my'', ''repo'', ''name'']"
proof -
  have h1: "ascii ''my-repo-name''" by code_simp
  have h2: "extract_words ''my-repo-name'' = Inr [''my'', ''repo'', ''name'']" by code_simp
  have h3: "length [''my'', ''repo'', ''name''] \<le> 3" by simp
  have h4: "''camelCase'' \<in> set CASE_STYLES" by (simp add: CASE_STYLES_def)
  have r: "convert_case (Inr [''my'', ''repo'', ''name'']) ''camelCase'' = Inr (Some ''myRepoName'')"
    by code_simp
  have u: "\<not> unsplit_capital ''myRepoName''" by code_simp
  have a: "\<forall>w \<in> set [''my'', ''repo'', ''name'']. w \<noteq> [] \<and> list_all is_lower_digit w"
    by code_simp
  have b: "\<forall>w \<in> set (tl [''my'', ''repo'', ''name'']). is_lower (hd w)" by code_simp
  from r u have c: "\<forall>rendered. convert_case (Inr [''my'', ''repo'', ''name'']) ''camelCase''
                       = Inr (Some rendered) \<longrightarrow> \<not> unsplit_capital rendered"
    by simp
  from a b c have h5: "''camelCase'' = ''camelCase'' \<or> ''camelCase'' = ''PascalCase'' \<longrightarrow>
           (\<forall>w \<in> set [''my'', ''repo'', ''name'']. w \<noteq> [] \<and> list_all is_lower_digit w) \<and>
           (\<forall>w \<in> set (tl [''my'', ''repo'', ''name'']). is_lower (hd w)) \<and>
           (\<forall>rendered. convert_case (Inr [''my'', ''repo'', ''name'']) ''camelCase''
                          = Inr (Some rendered) \<longrightarrow> \<not> unsplit_capital rendered)"
    by blast
  from tokenize_render_roundtrip [OF h1 h2 h3 h4 h5] r
  have "extract_words ''myRepoName'' = Inr [''my'', ''repo'', ''name'']" by simp
  with h1 h2 h3 h4 r u show ?thesis by blast
qed

end
